theory Spec2Isabelle
  imports Complex_Main
begin

unbundle bit_operations_syntax

section \<open>Constrained neighbour-joining merge of two trees (njmergepair.py)\<close>

text \<open>
  The development embeds \<^verbatim>\<open>src/software/njmergepair.py\<close>. The program is written
  against the DendroPy library, whose objects are modelled as follows.

  \<^item> A DendroPy node is a value of the datatype \<open>node\<close>: a leaf carrying its taxon
    label, or an internal node with two children. The program resolves polytomies
    (\<^verbatim>\<open>resolve_polytomies(limit=2)\<close>) before it does anything else, so every tree the
    rest of the program sees is binary; the model takes the trees in that form.
    Leaf labels are unique inside a tree, so a node is identified by the subtree
    below it, and a deep copy of a node is the same value.
  \<^item> A DendroPy tree is a record of its seed node and its taxon namespace (the
    list of labels in accession order; the taxon at position \<open>i\<close> owns bit \<open>i\<close>).
    \<^verbatim>\<open>dendropy.Tree(seed_node=root)\<close> makes a fresh namespace and fills it with the
    taxa met in a preorder walk.
  \<^item> Python integers are unbounded; bitmasks are natural numbers.
  \<^item> Distances are Python floats; the model computes with exact rationals.
  \<^item> Every \<^verbatim>\<open>raise\<close>, and every implicit Python failure the program can run
    into (a missing dictionary key, unpacking \<^verbatim>\<open>None\<close>), is a value of \<open>error\<close>.
\<close>

subsection \<open>Errors\<close>

datatype error =
    NodesNotDisjoint          \<comment> \<open>"Nodes are not disjoint on their leaf sets!"\<close>
  | NodeANotFound             \<comment> \<open>"Node A was not found in either tree!"\<close>
  | NodeBNotFound             \<comment> \<open>"Node B was not found in either tree!"\<close>
  | TreeNotRooted             \<comment> \<open>"Tree is not rooted!"\<close>
  | CannotHandleBipartition   \<comment> \<open>"Cannot handle this bipartition!"\<close>
  | TreesNotDisjoint          \<comment> \<open>"Input trees are not on disjoint leaf sets!"\<close>
  | NamesDoNotMatch           \<comment> \<open>"Names in matrix do not match those in trees!"\<close>
  | KeyError                  \<comment> \<open>a dictionary read at a key it does not hold\<close>
  | TypeError                 \<comment> \<open>unpacking \<^verbatim>\<open>None\<close> into a pair\<close>
  | AttributeError            \<comment> \<open>an attribute read on \<^verbatim>\<open>None\<close>\<close>
  | IndexError                \<comment> \<open>a list read out of range\<close>

definition bind :: "error + 'a \<Rightarrow> ('a \<Rightarrow> error + 'b) \<Rightarrow> error + 'b" where
  "bind m f = (case m of Inl e \<Rightarrow> Inl e | Inr x \<Rightarrow> f x)"

subsection \<open>Nodes, trees and leaf lists\<close>

type_synonym label = string

datatype node = Leaf label | Br node node

record tree =
  seed_node :: node
  taxon_namespace :: "label list"

text \<open>\<^verbatim>\<open>leaf_nodes()\<close> walks the subtree in preorder.\<close>

fun get_leaf_list :: "node \<Rightarrow> label list" where
  "get_leaf_list (Leaf x) = [x]"
| "get_leaf_list (Br l r) = get_leaf_list l @ get_leaf_list r"

definition get_leaf_set :: "node \<Rightarrow> label set" where
  "get_leaf_set subtree = set (get_leaf_list subtree)"

text \<open>\<^verbatim>\<open>dendropy.Tree(seed_node=root)\<close>.\<close>

definition Tree :: "node \<Rightarrow> tree" where
  "Tree rt = \<lparr>seed_node = rt, taxon_namespace = get_leaf_list rt\<rparr>"

text \<open>All nodes of a subtree, children before parents (\<^verbatim>\<open>postorder_edge_iter\<close>; an
  edge is named by its head node, and the seed node has an edge too).\<close>

fun postorder :: "node \<Rightarrow> node list" where
  "postorder (Leaf x) = [Leaf x]"
| "postorder (Br l r) = postorder l @ postorder r @ [Br l r]"

subsection \<open>Bitmasks\<close>

text \<open>\<^verbatim>\<open>TaxonNamespace.taxa_bitmask(labels=...)\<close>: the taxa of the namespace whose
  label is among the given ones, each contributing its own bit.\<close>

fun bits_from :: "nat \<Rightarrow> label list \<Rightarrow> label set \<Rightarrow> nat" where
  "bits_from i [] S = 0"
| "bits_from i (x # xs) S = (if x \<in> S then push_bit i 1 else 0) OR bits_from (Suc i) xs S"

definition taxa_bitmask :: "label list \<Rightarrow> label list \<Rightarrow> nat" where
  "taxa_bitmask tns labels = bits_from 0 tns (set labels)"

text \<open>The leafset bitmask of an edge, as \<^verbatim>\<open>encode_bipartitions\<close> computes it: the
  taxon's bit at a leaf, the union of the children's masks elsewhere.\<close>

fun leafset_bitmask :: "label list \<Rightarrow> node \<Rightarrow> nat" where
  "leafset_bitmask tns (Leaf x) = taxa_bitmask tns [x]"
| "leafset_bitmask tns (Br l r) = leafset_bitmask tns l OR leafset_bitmask tns r"

text \<open>\<^verbatim>\<open>int.bit_length()\<close>.\<close>

fun bit_length :: "nat \<Rightarrow> nat" where
  "bit_length n = (if n = 0 then 0 else Suc (bit_length (n div 2)))"

text \<open>\<^verbatim>\<open>Bipartition.split_as_bitstring()\<close>: the mask written in binary, most
  significant bit first, padded to the bit length of the tree's leafset mask.\<close>

definition split_as_bitstring :: "nat \<Rightarrow> nat \<Rightarrow> string" where
  "split_as_bitstring len m =
     map (\<lambda>i. if bit m i then CHR ''1'' else CHR ''0'') (rev [0..<len])"

text \<open>\<^verbatim>\<open>bitstring1.translate(maketrans("10", "01"))\<close>.\<close>

definition translate_10_01 :: "string \<Rightarrow> string" where
  "translate_10_01 s =
     map (\<lambda>c. if c = CHR ''1'' then CHR ''0'' else if c = CHR ''0'' then CHR ''1'' else c) s"

text \<open>\<^verbatim>\<open>int(bitstring2, 2)\<close> on a string of binary digits.\<close>

definition int_base2 :: "string \<Rightarrow> nat" where
  "int_base2 s = foldl (\<lambda>acc c. 2 * acc + (if c = CHR ''1'' then 1 else 0)) 0 s"

subsection \<open>The split-to-node map\<close>

text \<open>\<^verbatim>\<open>tree.bipartition_edge_map\<close> of a rooted tree, as the list of its items: the
  split bitmask of a rooted bipartition is its leafset bitmask, and the head node
  stands for the edge.\<close>

definition bipartition_edge_map :: "tree \<Rightarrow> (nat \<times> node) list" where
  "bipartition_edge_map t =
     map (\<lambda>v. (leafset_bitmask (taxon_namespace t) v, v)) (postorder (seed_node t))"

definition map_splits_to_nodes :: "tree \<Rightarrow> (nat \<rightharpoonup> node)" where
  "map_splits_to_nodes t =
     (let len = bit_length (leafset_bitmask (taxon_namespace t) (seed_node t)) in
      fold (\<lambda>(bitmask1, nd) split_to_node_map.
              let m1 = split_to_node_map(bitmask1 \<mapsto> nd);
                  bitstring1 = split_as_bitstring len bitmask1;
                  bitstring2 = translate_10_01 bitstring1;
                  bitmask2 = int_base2 bitstring2
              in m1(bitmask2 \<mapsto> nd))
           (bipartition_edge_map t) Map.empty)"

definition get_node_from_clade :: "tree \<Rightarrow> (nat \<rightharpoonup> node) \<Rightarrow> label list \<Rightarrow> error + node option" where
  "get_node_from_clade t split_to_node_map clade =
     (let clade' = set clade;
          leaves = get_leaf_set (seed_node t)
      in if leaves = clade' then
           (case split_to_node_map 0 of None \<Rightarrow> Inl KeyError | Some nd \<Rightarrow> Inr (Some nd))
         else if card (leaves \<inter> clade') < card clade' then Inr None
         else Inr (split_to_node_map (taxa_bitmask (taxon_namespace t) clade)))"


subsection \<open>Re-rooting\<close>

text \<open>
  \<^verbatim>\<open>tree.reroot_at_edge(node.edge)\<close> puts a new seed node on the edge above \<open>v\<close>. Its
  children are \<open>v\<close> and the rest of the tree, in which every edge on the path from
  \<open>v\<close> to the old seed node is turned around; the old seed node is left with one
  child and is suppressed. \<open>rest_above t v up\<close> walks down from \<open>t\<close> looking for \<open>v\<close>;
  \<open>up\<close> is what hangs above \<open>t\<close>, already turned around (nothing at the old seed
  node). An edge with no tail node cannot be re-rooted at.
\<close>

fun rest_above :: "node \<Rightarrow> node \<Rightarrow> node option \<Rightarrow> node option" where
  "rest_above (Leaf x) v up = None"
| "rest_above (Br l r) v up =
     (if l = v then Some (case up of None \<Rightarrow> r | Some u \<Rightarrow> Br r u)
      else if r = v then Some (case up of None \<Rightarrow> l | Some u \<Rightarrow> Br l u)
      else (case rest_above l v (Some (case up of None \<Rightarrow> r | Some u \<Rightarrow> Br r u)) of
              Some t \<Rightarrow> Some t
            | None \<Rightarrow> rest_above r v (Some (case up of None \<Rightarrow> l | Some u \<Rightarrow> Br l u))))"

definition reroot_at_edge :: "tree \<Rightarrow> node \<Rightarrow> error + tree" where
  "reroot_at_edge t v =
     (case rest_above (seed_node t) v None of
        None \<Rightarrow> Inl AttributeError
      | Some rest \<Rightarrow> Inr (t\<lparr>seed_node := Br v rest\<rparr>))"

definition extract_nodes_from_split :: "tree \<Rightarrow> node \<Rightarrow> label list \<Rightarrow> error + (tree \<times> node)" where
  "extract_nodes_from_split t nd clade =
     bind (if nd \<noteq> seed_node t then reroot_at_edge t nd else Inr t) (\<lambda>t'.
       case seed_node t' of
         Leaf x \<Rightarrow> Inl TreeNotRooted
       | Br node1 node2 \<Rightarrow>
           if get_leaf_set node1 = set clade then Inr (t', node1)
           else if get_leaf_set node2 = set clade then Inr (t', node2)
           else Inl CannotHandleBipartition)"

subsection \<open>Joining clades in the constraint trees\<close>

definition join_nodes_in_both_trees ::
  "tree \<Rightarrow> node \<Rightarrow> label list \<Rightarrow> tree \<Rightarrow> node \<Rightarrow> label list \<Rightarrow> bool
     \<Rightarrow> error + (tree option \<times> tree option)" where
  "join_nodes_in_both_trees tree1 nodeAinT1 cladeA tree2 nodeBinT2 cladeB test =
     (let cladeAisT1 = (get_leaf_set (seed_node tree1) = set cladeA);
          cladeBisT2 = (get_leaf_set (seed_node tree2) = set cladeB)
      in if cladeAisT1 \<and> cladeBisT2 then
           (if test then Inr (None, None)
            else Inr (Some (Tree (Br nodeAinT1 nodeBinT2)), None))
         else if cladeAisT1 then
           (if test then Inr (None, None)
            else bind (extract_nodes_from_split tree2 nodeBinT2 cladeB) (\<lambda>(tree2', nodeBinT2').
                   Inr (Some (Tree (Br nodeAinT1 (seed_node tree2'))), None)))
         else if cladeBisT2 then
           (if test then Inr (None, None)
            else bind (extract_nodes_from_split tree1 nodeAinT1 cladeA) (\<lambda>(tree1', nodeAinT1').
                   Inr (Some (Tree (Br (seed_node tree1') nodeBinT2)), None)))
         else
           bind (extract_nodes_from_split tree1 nodeAinT1 cladeA) (\<lambda>(tree1', nodeAinT1').
           bind (extract_nodes_from_split tree2 nodeBinT2 cladeB) (\<lambda>(tree2', nodeBinT2').
             Inr (Some (Tree (Br (seed_node tree1') nodeBinT2')),
                  Some (Tree (Br (seed_node tree2') nodeAinT1'))))))"

definition join_nodes_in_one_tree ::
  "tree \<Rightarrow> node \<Rightarrow> label list \<Rightarrow> tree \<Rightarrow> node \<Rightarrow> label list \<Rightarrow> error + (tree \<times> tree)" where
  "join_nodes_in_one_tree tree1 nodeAinT1 cladeA tree2 nodeBinT2 cladeB =
     bind (extract_nodes_from_split tree1 nodeAinT1 cladeA) (\<lambda>(tree1', nodeAinT1').
     bind (extract_nodes_from_split tree2 nodeBinT2 cladeB) (\<lambda>(tree2', nodeBinT2').
       Inr (tree1', Tree (Br nodeAinT1' (seed_node tree2')))))"

subsection \<open>Compatibility of two trees on their shared leaves\<close>

text \<open>\<^verbatim>\<open>retain_taxa_with_labels\<close>: the other leaves are pruned, and a node left with
  one child is suppressed.\<close>

fun retain_taxa_with_labels :: "label set \<Rightarrow> node \<Rightarrow> node option" where
  "retain_taxa_with_labels S (Leaf x) = (if x \<in> S then Some (Leaf x) else None)"
| "retain_taxa_with_labels S (Br l r) =
     (case (retain_taxa_with_labels S l, retain_taxa_with_labels S r) of
        (None, None) \<Rightarrow> None
      | (Some a, None) \<Rightarrow> Some a
      | (None, Some b) \<Rightarrow> Some b
      | (Some a, Some b) \<Rightarrow> Some (Br a b))"

text \<open>
  The bipartitions of the tree taken as unrooted (\<^verbatim>\<open>is_rooted = False\<close>,
  \<^verbatim>\<open>collapse_basal_bifurcation\<close>, \<^verbatim>\<open>update_bipartitions\<close>), over the namespace \<open>taxa\<close>.
  The split bitmask of an unrooted bipartition is normalised: a mask that holds
  the lowest bit of the tree's leafset mask is replaced by its complement in that
  mask. After \<^verbatim>\<open>retain_taxa_with_labels(shared)\<close> the leaves are all of \<open>taxa\<close>, so
  the lowest bit is bit 0. The two edges at a bifurcating seed node have the same
  normalised mask, so collapsing the basal bifurcation leaves the set unchanged.
\<close>

definition normalize_bitmask :: "nat \<Rightarrow> nat \<Rightarrow> nat" where
  "normalize_bitmask fill m = (if bit m 0 then fill - (m AND fill) else m AND fill)"

definition bipartition_encoding :: "label list \<Rightarrow> node \<Rightarrow> nat set" where
  "bipartition_encoding taxa rt =
     set (map (\<lambda>v. normalize_bitmask (leafset_bitmask taxa rt) (leafset_bitmask taxa v))
              (postorder rt))"

text \<open>\<^verbatim>\<open>false_positives_and_negatives\<close> counts the bipartitions one tree has and
  the other has not; one of the counts is positive exactly when the sets differ.\<close>

definition are_two_trees_incompatible :: "tree \<Rightarrow> tree \<Rightarrow> bool" where
  "are_two_trees_incompatible tree1 tree2 =
     (let leaves1 = get_leaf_set (seed_node tree1);
          leaves2 = get_leaf_set (seed_node tree2);
          shared = remdups (filter (\<lambda>x. x \<in> leaves2) (get_leaf_list (seed_node tree1)))
      in if length shared < 4 then False
         else (case (retain_taxa_with_labels (set shared) (seed_node tree1),
                     retain_taxa_with_labels (set shared) (seed_node tree2)) of
                 (Some r1, Some r2) \<Rightarrow> bipartition_encoding shared r1 \<noteq> bipartition_encoding shared r2
               | _ \<Rightarrow> False))"


subsection \<open>The compatibility test and the edit\<close>

text \<open>The four lookups that open both \<^verbatim>\<open>test_join\<close> and \<^verbatim>\<open>join_nodes\<close>: a clade that is
  the whole leaf set of the tree is answered with the proposed node itself.\<close>

definition find_in_tree :: "tree \<Rightarrow> (nat \<rightharpoonup> node) \<Rightarrow> node \<Rightarrow> error + node option" where
  "find_in_tree t split_to_node_map nd =
     (if set (get_leaf_list nd) = set (get_leaf_list (seed_node t)) then Inr (Some nd)
      else get_node_from_clade t split_to_node_map (get_leaf_list nd))"

text \<open>\<^verbatim>\<open>violates = True\<close> exactly when the lookup of \<^verbatim>\<open>cladeA + cladeB\<close> gives \<^verbatim>\<open>None\<close>.\<close>

definition not_a_clade :: "tree \<Rightarrow> (nat \<rightharpoonup> node) \<Rightarrow> label list \<Rightarrow> error + bool" where
  "not_a_clade t split_to_node_map clade =
     bind (get_node_from_clade t split_to_node_map clade) (\<lambda>nd. Inr (nd = None))"

text \<open>Cases 6 and 8: the join is made on copies, with \<^verbatim>\<open>test=True\<close>.\<close>

definition simulate_join ::
  "tree \<Rightarrow> node \<Rightarrow> label list \<Rightarrow> tree \<Rightarrow> node \<Rightarrow> label list \<Rightarrow> error + bool" where
  "simulate_join t1 nA cladeA t2 nB cladeB =
     bind (join_nodes_in_both_trees t1 nA cladeA t2 nB cladeB True) (\<lambda>(t1', t2').
       case t1' of
         None \<Rightarrow> Inr False
       | Some u1 \<Rightarrow> (case t2' of
                      None \<Rightarrow> Inl AttributeError
                    | Some u2 \<Rightarrow> Inr (are_two_trees_incompatible u1 u2)))"

definition test_join ::
  "tree \<Rightarrow> tree \<Rightarrow> (nat \<rightharpoonup> node) \<Rightarrow> (nat \<rightharpoonup> node) \<Rightarrow> node \<Rightarrow> node \<Rightarrow> error + bool" where
  "test_join tree1 tree2 map_1 map_2 nodeA nodeB =
     (let cladeA = get_leaf_list nodeA;
          cladeB = get_leaf_list nodeB
      in if card (set cladeA \<inter> set cladeB) > 0 then Inl NodesNotDisjoint
         else
           bind (find_in_tree tree1 map_1 nodeA) (\<lambda>nodeAinT1.
           bind (find_in_tree tree1 map_1 nodeB) (\<lambda>nodeBinT1.
           bind (find_in_tree tree2 map_2 nodeA) (\<lambda>nodeAinT2.
           bind (find_in_tree tree2 map_2 nodeB) (\<lambda>nodeBinT2.
             case (nodeAinT1, nodeAinT2) of
               (Some a1, Some a2) \<Rightarrow>
                 (case (nodeBinT1, nodeBinT2) of
                    (Some b1, Some b2) \<Rightarrow>
                      bind (get_node_from_clade tree1 map_1 (cladeA @ cladeB)) (\<lambda>node1.
                      bind (get_node_from_clade tree2 map_2 (cladeA @ cladeB)) (\<lambda>node2.
                        Inr (node1 = None \<or> node2 = None)))
                  | (Some b1, None) \<Rightarrow> not_a_clade tree1 map_1 (cladeA @ cladeB)
                  | (None, Some b2) \<Rightarrow> not_a_clade tree2 map_2 (cladeA @ cladeB)
                  | (None, None) \<Rightarrow> Inl NodeBNotFound)
             | (Some a1, None) \<Rightarrow>
                 (case (nodeBinT1, nodeBinT2) of
                    (Some b1, Some b2) \<Rightarrow> not_a_clade tree1 map_1 (cladeA @ cladeB)
                  | (Some b1, None) \<Rightarrow> not_a_clade tree1 map_1 (cladeA @ cladeB)
                  | (None, Some b2) \<Rightarrow> simulate_join tree1 a1 cladeA tree2 b2 cladeB
                  | (None, None) \<Rightarrow> Inl NodeBNotFound)
             | (None, Some a2) \<Rightarrow>
                 (case (nodeBinT1, nodeBinT2) of
                    (Some b1, Some b2) \<Rightarrow> not_a_clade tree2 map_2 (cladeA @ cladeB)
                  | (Some b1, None) \<Rightarrow> simulate_join tree1 b1 cladeB tree2 a2 cladeA
                  | (None, Some b2) \<Rightarrow> not_a_clade tree2 map_2 (cladeA @ cladeB)
                  | (None, None) \<Rightarrow> Inl NodeBNotFound)
             | (None, None) \<Rightarrow> Inl NodeANotFound)))))"

text \<open>\<^verbatim>\<open>[tree2, tree1] = join_nodes_in_one_tree(tree2, ..., tree1, ...)\<close> assigns the
  first result to \<^verbatim>\<open>tree2\<close>; \<open>swapped\<close> puts the pair back in the order (tree1, tree2).\<close>

definition edited_one ::
  "bool \<Rightarrow> error + (tree \<times> tree) \<Rightarrow> error + (tree option \<times> tree option \<times> bool)" where
  "edited_one swapped r =
     bind r (\<lambda>(x, y). if swapped then Inr (Some y, Some x, True) else Inr (Some x, Some y, True))"

definition edited_both ::
  "error + (tree option \<times> tree option) \<Rightarrow> error + (tree option \<times> tree option \<times> bool)" where
  "edited_both r = bind r (\<lambda>(x, y). Inr (x, y, True))"

definition join_nodes ::
  "tree \<Rightarrow> tree \<Rightarrow> (nat \<rightharpoonup> node) \<Rightarrow> (nat \<rightharpoonup> node) \<Rightarrow> node \<Rightarrow> node
     \<Rightarrow> error + (tree option \<times> tree option \<times> bool)" where
  "join_nodes tree1 tree2 map_1 map_2 nodeA nodeB =
     (let cladeA = get_leaf_list nodeA;
          cladeB = get_leaf_list nodeB
      in if card (set cladeA \<inter> set cladeB) > 0 then Inl NodesNotDisjoint
         else
           bind (find_in_tree tree1 map_1 nodeA) (\<lambda>nodeAinT1.
           bind (find_in_tree tree1 map_1 nodeB) (\<lambda>nodeBinT1.
           bind (find_in_tree tree2 map_2 nodeA) (\<lambda>nodeAinT2.
           bind (find_in_tree tree2 map_2 nodeB) (\<lambda>nodeBinT2.
             case (nodeAinT1, nodeAinT2) of
               (Some a1, Some a2) \<Rightarrow>
                 (case (nodeBinT1, nodeBinT2) of
                    (Some b1, Some b2) \<Rightarrow> Inr (Some tree1, Some tree2, False)
                  | (Some b1, None) \<Rightarrow>
                      edited_one False (join_nodes_in_one_tree tree1 b1 cladeB tree2 a2 cladeA)
                  | (None, Some b2) \<Rightarrow>
                      edited_one True (join_nodes_in_one_tree tree2 b2 cladeB tree1 a1 cladeA)
                  | (None, None) \<Rightarrow> Inl NodeBNotFound)
             | (Some a1, None) \<Rightarrow>
                 (case (nodeBinT1, nodeBinT2) of
                    (Some b1, Some b2) \<Rightarrow>
                      edited_one False (join_nodes_in_one_tree tree1 a1 cladeA tree2 b2 cladeB)
                  | (Some b1, None) \<Rightarrow> Inr (Some tree1, Some tree2, False)
                  | (None, Some b2) \<Rightarrow>
                      edited_both (join_nodes_in_both_trees tree1 a1 cladeA tree2 b2 cladeB False)
                  | (None, None) \<Rightarrow> Inl NodeBNotFound)
             | (None, Some a2) \<Rightarrow>
                 (case (nodeBinT1, nodeBinT2) of
                    (Some b1, Some b2) \<Rightarrow>
                      edited_one True (join_nodes_in_one_tree tree2 a2 cladeA tree1 b1 cladeB)
                  | (Some b1, None) \<Rightarrow>
                      edited_both (join_nodes_in_both_trees tree1 b1 cladeB tree2 a2 cladeA False)
                  | (None, Some b2) \<Rightarrow> Inr (Some tree1, Some tree2, False)
                  | (None, None) \<Rightarrow> Inl NodeBNotFound)
             | (None, None) \<Rightarrow> Inl NodeANotFound)))))"


subsection \<open>The agglomeration loop\<close>

text \<open>
  The distance matrix object: the labels of its taxon namespace, the taxa of
  \<^verbatim>\<open>_mapped_taxa\<close> in the order in which the set is iterated, and the entries
  \<^verbatim>\<open>_taxon_phylogenetic_distances[x][y]\<close>, taken to be present for every pair of
  distinct mapped taxa.
\<close>

record pdm =
  pdm_taxon_namespace :: "label list"
  mapped_taxa :: "label list"
  taxon_phylogenetic_distances :: "label \<Rightarrow> label \<Rightarrow> rat"

text \<open>
  The variables of the loop. The attributes \<^verbatim>\<open>_nj_distances\<close> and \<^verbatim>\<open>_nj_xsub\<close> of the
  pool nodes are kept as functions of the node; \<open>printed\<close> collects what
  \<^verbatim>\<open>print(n)\<close> writes, one number for every pass through the loop body.
\<close>

record nj_state =
  cur_tree1 :: tree
  cur_tree2 :: tree
  cur_map1 :: "nat \<rightharpoonup> node"
  cur_map2 :: "nat \<rightharpoonup> node"
  node_pool :: "node list"
  nj_distances :: "node \<Rightarrow> node \<Rightarrow> rat"
  nj_xsub :: "node \<Rightarrow> rat"
  printed :: "nat list"

text \<open>The pairs \<^verbatim>\<open>(nd1, nd2)\<close> in the order of the two nested \<^verbatim>\<open>for\<close> loops.\<close>

fun pool_pairs :: "'a list \<Rightarrow> ('a \<times> 'a) list" where
  "pool_pairs [] = []"
| "pool_pairs (x # xs) = map (Pair x) xs @ pool_pairs xs"

text \<open>The body of the inner loop, run over a list of pairs. \<^verbatim>\<open>min_q\<close> and
  \<^verbatim>\<open>nodes_to_join\<close> are always assigned together and are one optional value here.\<close>

fun scan_pairs ::
  "('a \<times> 'a \<Rightarrow> rat) \<Rightarrow> ('a \<times> 'a \<Rightarrow> error + bool) \<Rightarrow> ('a \<times> 'a) list
     \<Rightarrow> (rat \<times> 'a \<times> 'a) option \<Rightarrow> error + (rat \<times> 'a \<times> 'a) option" where
  "scan_pairs qvalue test [] best = Inr best"
| "scan_pairs qvalue test (p # ps) best =
     (if (case best of None \<Rightarrow> True | Some (min_q, nodes_to_join) \<Rightarrow> qvalue p < min_q) then
        bind (test p) (\<lambda>violates.
          if \<not> violates then scan_pairs qvalue test ps (Some (qvalue p, p))
          else scan_pairs qvalue test ps best)
      else scan_pairs qvalue test ps best)"

definition qvalue :: "nat \<Rightarrow> nj_state \<Rightarrow> node \<times> node \<Rightarrow> rat" where
  "qvalue n st = (\<lambda>(nd1, nd2).
     (of_nat n - 2) * nj_distances st nd1 nd2 - nj_xsub st nd1 - nj_xsub st nd2)"

definition q_scan :: "nat \<Rightarrow> nj_state \<Rightarrow> error + (rat \<times> node \<times> node) option" where
  "q_scan n st =
     scan_pairs (qvalue n st)
       (\<lambda>(nd1, nd2). test_join (cur_tree1 st) (cur_tree2 st) (cur_map1 st) (cur_map2 st) nd1 nd2)
       (pool_pairs (node_pool st)) None"

text \<open>The distances and the row sum of the new node, and the row sums of the
  nodes that stay in the pool (the second half of the loop body).\<close>

definition new_dist :: "nj_state \<Rightarrow> node \<Rightarrow> node \<Rightarrow> node \<Rightarrow> rat" where
  "new_dist st nd1 nd2 nd =
     (1 / 2) * ((nj_distances st nd nd1 + nj_distances st nd nd2) - nj_distances st nd1 nd2)"

definition commit_join :: "nj_state \<Rightarrow> node \<Rightarrow> node \<Rightarrow> nj_state" where
  "commit_join st nd1 nd2 =
     (let new_node = Br nd1 nd2;
          pool' = remove1 nd2 (remove1 nd1 (node_pool st))
      in st\<lparr>node_pool := pool' @ [new_node],
            nj_distances := (\<lambda>u v.
               if u = new_node \<and> v \<in> set pool' then new_dist st nd1 nd2 v
               else if v = new_node \<and> u \<in> set pool' then new_dist st nd1 nd2 u
               else nj_distances st u v),
            nj_xsub := (\<lambda>u.
               if u = new_node then sum_list (map (new_dist st nd1 nd2) pool')
               else if u \<in> set pool' then
                 nj_xsub st u + new_dist st nd1 nd2 u
                   - nj_distances st nd1 u - nj_distances st nd2 u
               else nj_xsub st u)\<rparr>)"

text \<open>One pass through the body of \<^verbatim>\<open>while n > 1\<close>: either the function returns a tree
  (\<open>Inl\<close>), or the loop goes on with a new state (\<open>Inr\<close>).\<close>

definition nj_iteration ::
  "label set \<Rightarrow> nat \<Rightarrow> nj_state \<Rightarrow> error + ((tree \<times> nat list) + nj_state)" where
  "nj_iteration full_leaf_set n st0 =
     (let st = st0\<lparr>printed := printed st0 @ [n]\<rparr> in
      bind (q_scan n st) (\<lambda>best.
        case best of
          None \<Rightarrow> Inl TypeError
        | Some (min_q, nd1, nd2) \<Rightarrow>
            bind (join_nodes (cur_tree1 st) (cur_tree2 st) (cur_map1 st) (cur_map2 st) nd1 nd2)
              (\<lambda>(tree1, tree2, edited).
                 if edited then
                   (case tree1 of
                      None \<Rightarrow> Inl AttributeError
                    | Some t1 \<Rightarrow>
                        if get_leaf_set (seed_node t1) = full_leaf_set then Inr (Inl (t1, printed st))
                        else (case tree2 of
                                None \<Rightarrow> Inl AttributeError
                              | Some t2 \<Rightarrow>
                                  if get_leaf_set (seed_node t2) = full_leaf_set
                                  then Inr (Inl (t2, printed st))
                                  else Inr (Inr (commit_join
                                         (st\<lparr>cur_tree1 := t1, cur_tree2 := t2,
                                             cur_map1 := map_splits_to_nodes t1,
                                             cur_map2 := map_splits_to_nodes t2\<rparr>) nd1 nd2))))
                 else Inr (Inr (commit_join st nd1 nd2)))))"

text \<open>\<^verbatim>\<open>while n > 1\<close>, and what follows the loop: the node left in the pool becomes
  the seed node of the tree made on the namespace of the distance matrix.\<close>

fun nj_loop :: "label set \<Rightarrow> label list \<Rightarrow> nat \<Rightarrow> nj_state \<Rightarrow> error + (tree \<times> nat list)" where
  "nj_loop full_leaf_set tns n st =
     (if n > 1 then
        (case nj_iteration full_leaf_set n st of
           Inl e \<Rightarrow> Inl e
         | Inr (Inl result) \<Rightarrow> Inr result
         | Inr (Inr st') \<Rightarrow> nj_loop full_leaf_set tns (n - 1) st')
      else
        (case node_pool st of
           [] \<Rightarrow> Inl IndexError
         | nd # rest \<Rightarrow> Inr (\<lparr>seed_node = nd, taxon_namespace = tns\<rparr>, printed st)))"

definition initial_state :: "pdm \<Rightarrow> tree \<Rightarrow> tree \<Rightarrow> nj_state" where
  "initial_state dm tree1 tree2 =
     (let pool = map Leaf (mapped_taxa dm);
          d = (\<lambda>u v. case (u, v) of
                 (Leaf x, Leaf y) \<Rightarrow> taxon_phylogenetic_distances dm x y
               | _ \<Rightarrow> 0)
      in \<lparr>cur_tree1 = tree1, cur_tree2 = tree2,
          cur_map1 = map_splits_to_nodes tree1, cur_map2 = map_splits_to_nodes tree2,
          node_pool = pool,
          nj_distances = d,
          nj_xsub = (\<lambda>u. sum_list (map (d u) (filter (\<lambda>v. v \<noteq> u) pool))),
          printed = []\<rparr>)"

text \<open>The function returns the merged tree; the model returns with it the numbers
  printed on the way.\<close>

definition merge_two_trees_via_nj :: "pdm \<Rightarrow> tree \<Rightarrow> tree \<Rightarrow> error + (tree \<times> nat list)" where
  "merge_two_trees_via_nj dm tree1 tree2 =
     (let leaves1 = get_leaf_set (seed_node tree1);
          leaves2 = get_leaf_set (seed_node tree2);
          shared = leaves1 \<inter> leaves2
      in if card shared \<noteq> 0 then Inl TreesNotDisjoint
         else
           let full_leaf_set = leaves1 \<union> leaves2 in
           if full_leaf_set \<noteq> set (pdm_taxon_namespace dm) then Inl NamesDoNotMatch
           else nj_loop full_leaf_set (pdm_taxon_namespace dm) (length (mapped_taxa dm))
                  (initial_state dm tree1 tree2))"


subsection \<open>Small inputs for the examples\<close>

definition cherry_ab :: tree where
  "cherry_ab = Tree (Br (Leaf ''a'') (Leaf ''b''))"

definition cherry_cd :: tree where
  "cherry_cd = Tree (Br (Leaf ''c'') (Leaf ''d''))"


definition caterpillar_abc :: tree where
  "caterpillar_abc = Tree (Br (Leaf ''a'') (Br (Leaf ''b'') (Leaf ''c'')))"

definition single_d :: tree where
  "single_d = Tree (Leaf ''d'')"

definition dm_ad_close :: pdm where
  "dm_ad_close = \<lparr>pdm_taxon_namespace = [''a'', ''b'', ''c'', ''d''],
                   mapped_taxa = [''a'', ''b'', ''c'', ''d''],
                   taxon_phylogenetic_distances =
                     (\<lambda>x y. if x = y then 0
                            else if (x = ''a'' \<and> y = ''d'') \<or> (x = ''d'' \<and> y = ''a'') then 1 / 10
                            else 1)\<rparr>"

definition dm_negative :: pdm where
  "dm_negative = \<lparr>pdm_taxon_namespace = [''a'', ''b'', ''c'', ''d''],
                   mapped_taxa = [''a'', ''b'', ''c'', ''d''],
                   taxon_phylogenetic_distances =
                     (\<lambda>x y. if x = y then 0
                            else if (x = ''a'' \<and> y = ''c'') \<or> (x = ''c'' \<and> y = ''a'') then - 1
                            else 5)\<rparr>"

definition quartet_abcd :: tree where
  "quartet_abcd = Tree (Br (Br (Leaf ''a'') (Leaf ''b'')) (Br (Leaf ''c'') (Leaf ''d'')))"

definition single_e :: tree where
  "single_e = Tree (Leaf ''e'')"

definition dm_two_mapped :: pdm where
  "dm_two_mapped = \<lparr>pdm_taxon_namespace = [''a'', ''b'', ''c'', ''d'', ''e''],
                   mapped_taxa = [''a'', ''c''],
                   taxon_phylogenetic_distances = (\<lambda>x y. if x = y then 0 else 1)\<rparr>"

subsection \<open>The scan as the specification words it\<close>

text \<open>
  The pairs are proposed in ascending order of their Q-value, pairs of equal
  Q-value in the order of their pool indices (the sort is stable, and
  \<open>pool_pairs\<close> lists the pairs by first index, then second index); the first pair
  that \<^verbatim>\<open>test_join\<close> does not reject is taken.
\<close>

fun first_accepted :: "('a \<Rightarrow> error + bool) \<Rightarrow> 'a list \<Rightarrow> error + 'a option" where
  "first_accepted test [] = Inr None"
| "first_accepted test (p # ps) =
     bind (test p) (\<lambda>violates. if \<not> violates then Inr (Some p) else first_accepted test ps)"

definition ascending_scan ::
  "('a \<Rightarrow> rat) \<Rightarrow> ('a \<Rightarrow> error + bool) \<Rightarrow> 'a list \<Rightarrow> error + 'a option" where
  "ascending_scan qv test ps = first_accepted test (sort_key qv ps)"

definition dm_ac_close :: pdm where
  "dm_ac_close = \<lparr>pdm_taxon_namespace = [''a'', ''b'', ''c'', ''d'', ''e''],
                   mapped_taxa = [''a'', ''b'', ''c'', ''d'', ''e''],
                   taxon_phylogenetic_distances =
                     (\<lambda>x y. if x = y then 0
                            else if (x = ''a'' \<and> y = ''c'') \<or> (x = ''c'' \<and> y = ''a'') then 1 / 10
                            else 1)\<rparr>"

subsection \<open>Inputs that differ in the iteration order of the mapped taxa only\<close>




subsection \<open>Clades of an unrooted tree\<close>

text \<open>
  The specification reads the trees as unrooted: an edge splits the leaves in
  two sides, and a label set is \<^emph>\<open>in\<close> a tree when it is one of the two sides of
  an edge. \<open>sides L nd\<close> collects the sides of the edges of the subtree below
  \<open>nd\<close>, in a tree with leaf set \<open>L\<close>. Two disjoint label sets are siblings in a
  tree when their union is a side as well.
\<close>

definition sides :: "label set \<Rightarrow> node \<Rightarrow> label set set" where
  "sides L nd = (\<Union>u \<in> set (postorder nd). {get_leaf_set u, L - get_leaf_set u})"

definition is_side :: "tree \<Rightarrow> label set \<Rightarrow> bool" where
  "is_side t S \<longleftrightarrow> S \<in> sides (get_leaf_set (seed_node t)) (seed_node t)"



section \<open>Properties\<close>

subsection \<open>Fewer than four shared leaves\<close>

lemma bind_simps [simp]: "bind (Inl e) f = Inl e" "bind (Inr x) f = f x"
  by (simp_all add: bind_def)

lemma few_shared: 
  assumes "card (get_leaf_set (seed_node u1) \<inter> get_leaf_set (seed_node u2)) < 4"
  shows "are_two_trees_incompatible u1 u2 = False"
proof -
  have "set (filter (\<lambda>x. x \<in> get_leaf_set (seed_node u2)) (get_leaf_list (seed_node u1)))
        = get_leaf_set (seed_node u1) \<inter> get_leaf_set (seed_node u2)"
    by (auto simp: get_leaf_set_def)
  then have "length (remdups (filter (\<lambda>x. x \<in> get_leaf_set (seed_node u2)) (get_leaf_list (seed_node u1)))) < 4"
    using assms by (simp add: length_remdups_card_conv)
  then show ?thesis
    by (simp add: are_two_trees_incompatible_def Let_def)
qed

text \<open>
  C10. Two trees that share fewer than four leaf labels are reported compatible
  by \<^verbatim>\<open>are_two_trees_incompatible\<close>, whatever their shapes. So in cases 6 and 8 of
  \<^verbatim>\<open>test_join\<close> (one node found in the first tree only, the other in the second
  tree only), a join whose two simulated trees share fewer than four leaves is
  accepted.
\<close>

theorem few_shared_leaves_never_rejected:
  assumes few: "card (get_leaf_set (seed_node u1) \<inter> get_leaf_set (seed_node u2)) < 4"
  shows "are_two_trees_incompatible u1 u2 = False
    \<and> (\<forall>tree1 tree2 map_1 map_2 nodeA nodeB a1 b2.
          set (get_leaf_list nodeA) \<inter> set (get_leaf_list nodeB) = {}
          \<and> find_in_tree tree1 map_1 nodeA = Inr (Some a1)
          \<and> find_in_tree tree2 map_2 nodeA = Inr None
          \<and> find_in_tree tree1 map_1 nodeB = Inr None
          \<and> find_in_tree tree2 map_2 nodeB = Inr (Some b2)
          \<and> join_nodes_in_both_trees tree1 a1 (get_leaf_list nodeA)
                tree2 b2 (get_leaf_list nodeB) True = Inr (Some u1, Some u2)
          \<longrightarrow> test_join tree1 tree2 map_1 map_2 nodeA nodeB = Inr False)
    \<and> (\<forall>tree1 tree2 map_1 map_2 nodeA nodeB a2 b1.
          set (get_leaf_list nodeA) \<inter> set (get_leaf_list nodeB) = {}
          \<and> find_in_tree tree1 map_1 nodeA = Inr None
          \<and> find_in_tree tree2 map_2 nodeA = Inr (Some a2)
          \<and> find_in_tree tree1 map_1 nodeB = Inr (Some b1)
          \<and> find_in_tree tree2 map_2 nodeB = Inr None
          \<and> join_nodes_in_both_trees tree1 b1 (get_leaf_list nodeB)
                tree2 a2 (get_leaf_list nodeA) True = Inr (Some u1, Some u2)
          \<longrightarrow> test_join tree1 tree2 map_1 map_2 nodeA nodeB = Inr False)"
  using few_shared [OF few]
  by (simp add: test_join_def simulate_join_def Let_def)


theorem few_shared_leaves_never_rejected_witness:
  "card (get_leaf_set (seed_node (Tree (Br (Br (Leaf ''b'') (Leaf ''a'')) (Leaf ''c''))))
         \<inter> get_leaf_set (seed_node (Tree (Br (Br (Leaf ''d'') (Leaf ''c'')) (Leaf ''a''))))) < 4
   \<and> are_two_trees_incompatible (Tree (Br (Br (Leaf ''b'') (Leaf ''a'')) (Leaf ''c'')))
        (Tree (Br (Br (Leaf ''d'') (Leaf ''c'')) (Leaf ''a''))) = False
   \<and> test_join cherry_ab cherry_cd (map_splits_to_nodes cherry_ab) (map_splits_to_nodes cherry_cd)
        (Leaf ''a'') (Leaf ''c'') = Inr False
   \<and> test_join cherry_ab cherry_cd (map_splits_to_nodes cherry_ab) (map_splits_to_nodes cherry_cd)
        (Leaf ''c'') (Leaf ''a'') = Inr False"
proof -
  let ?u1 = "Tree (Br (Br (Leaf ''b'') (Leaf ''a'')) (Leaf ''c''))"
  let ?u2 = "Tree (Br (Br (Leaf ''d'') (Leaf ''c'')) (Leaf ''a''))"
  let ?m1 = "map_splits_to_nodes cherry_ab"
  let ?m2 = "map_splits_to_nodes cherry_cd"
  have few: "card (get_leaf_set (seed_node ?u1) \<inter> get_leaf_set (seed_node ?u2)) < 4"
    by code_simp
  note all = few_shared_leaves_never_rejected [OF few]
  have case6:
    "set (get_leaf_list (Leaf ''a'')) \<inter> set (get_leaf_list (Leaf ''c'')) = {}
     \<and> find_in_tree cherry_ab ?m1 (Leaf ''a'') = Inr (Some (Leaf ''b''))
     \<and> find_in_tree cherry_cd ?m2 (Leaf ''a'') = Inr None
     \<and> find_in_tree cherry_ab ?m1 (Leaf ''c'') = Inr None
     \<and> find_in_tree cherry_cd ?m2 (Leaf ''c'') = Inr (Some (Leaf ''d''))
     \<and> join_nodes_in_both_trees cherry_ab (Leaf ''b'') (get_leaf_list (Leaf ''a''))
          cherry_cd (Leaf ''d'') (get_leaf_list (Leaf ''c'')) True = Inr (Some ?u1, Some ?u2)"
    by code_simp
  have case8:
    "set (get_leaf_list (Leaf ''c'')) \<inter> set (get_leaf_list (Leaf ''a'')) = {}
     \<and> find_in_tree cherry_ab ?m1 (Leaf ''c'') = Inr None
     \<and> find_in_tree cherry_cd ?m2 (Leaf ''c'') = Inr (Some (Leaf ''d''))
     \<and> find_in_tree cherry_ab ?m1 (Leaf ''a'') = Inr (Some (Leaf ''b''))
     \<and> find_in_tree cherry_cd ?m2 (Leaf ''a'') = Inr None
     \<and> join_nodes_in_both_trees cherry_ab (Leaf ''b'') (get_leaf_list (Leaf ''a''))
          cherry_cd (Leaf ''d'') (get_leaf_list (Leaf ''c'')) True = Inr (Some ?u1, Some ?u2)"
    by code_simp
  from all case6 have r6: "test_join cherry_ab cherry_cd ?m1 ?m2 (Leaf ''a'') (Leaf ''c'') = Inr False"
    by blast
  from all case8 have r8: "test_join cherry_ab cherry_cd ?m1 ?m2 (Leaf ''c'') (Leaf ''a'') = Inr False"
    by blast
  from all few r6 r8 show ?thesis by blast
qed

subsection \<open>The loop: early return, entry checks, no acceptable pair\<close>

declare nj_loop.simps [simp del]

declare bit_length.simps [simp del]

lemma q_scan_printed [simp]: "q_scan n (st\<lparr>printed := p\<rparr>) = q_scan n st"
  by (simp add: q_scan_def qvalue_def)

text \<open>Whenever the scan accepts no pair, the pass through the loop body ends in
  the failed unpacking.\<close>

lemma nj_loop_no_pair:
  assumes "1 < n" and "q_scan n st = Inr None"
  shows "nj_loop full tns n st = Inl TypeError"
  using assms by (simp add: nj_loop.simps [of full tns n st] nj_iteration_def Let_def)

text \<open>
  C5. When \<^verbatim>\<open>join_nodes\<close> reports an edit and the first tree it returns has the
  full leaf set (or, failing that, the second one has), the loop returns that
  tree at once, whatever the number \<open>n\<close> of nodes left in the pool: the output
  of \<^verbatim>\<open>print(n)\<close> grows by the current \<open>n\<close> only, so no further pass through the
  loop body, and no further scan of the Q-values, takes place.
\<close>

theorem early_return_on_spanning_tree:
  assumes n: "1 < n"
    and scan: "q_scan n st = Inr (Some (min_q, nd1, nd2))"
    and join: "join_nodes (cur_tree1 st) (cur_tree2 st) (cur_map1 st) (cur_map2 st) nd1 nd2
                 = Inr (tree1', tree2', True)"
  shows "(\<forall>t1. tree1' = Some t1 \<and> get_leaf_set (seed_node t1) = full
            \<longrightarrow> nj_loop full tns n st = Inr (t1, printed st @ [n]))
       \<and> (\<forall>t1 t2. tree1' = Some t1 \<and> get_leaf_set (seed_node t1) \<noteq> full
                 \<and> tree2' = Some t2 \<and> get_leaf_set (seed_node t2) = full
            \<longrightarrow> nj_loop full tns n st = Inr (t2, printed st @ [n]))"
  using n scan join by (simp add: nj_loop.simps [of full tns n st] nj_iteration_def Let_def)

theorem early_return_on_spanning_tree_witness:
  "(1::nat) < 4
   \<and> q_scan 4 (initial_state dm_ad_close caterpillar_abc single_d)
       = Inr (Some (- 4, Leaf ''a'', Leaf ''d''))
   \<and> join_nodes caterpillar_abc single_d (map_splits_to_nodes caterpillar_abc)
        (map_splits_to_nodes single_d) (Leaf ''a'') (Leaf ''d'')
       = Inr (Some (Tree (Br (Br (Br (Leaf ''b'') (Leaf ''c'')) (Leaf ''a'')) (Leaf ''d''))), None, True)
   \<and> get_leaf_set (Br (Br (Br (Leaf ''b'') (Leaf ''c'')) (Leaf ''a'')) (Leaf ''d''))
       = {''a'', ''b'', ''c'', ''d''}
   \<and> length (node_pool (initial_state dm_ad_close caterpillar_abc single_d)) = 4
   \<and> nj_loop {''a'', ''b'', ''c'', ''d''} [''a'', ''b'', ''c'', ''d''] 4
        (initial_state dm_ad_close caterpillar_abc single_d)
       = Inr (Tree (Br (Br (Br (Leaf ''b'') (Leaf ''c'')) (Leaf ''a'')) (Leaf ''d'')), [4])"
proof -
  let ?st = "initial_state dm_ad_close caterpillar_abc single_d"
  let ?t = "Tree (Br (Br (Br (Leaf ''b'') (Leaf ''c'')) (Leaf ''a'')) (Leaf ''d''))"
  have n: "(1::nat) < 4" by simp
  have scan: "q_scan 4 ?st = Inr (Some (- 4, Leaf ''a'', Leaf ''d''))"
    by code_simp
  have trees: "cur_tree1 ?st = caterpillar_abc" "cur_tree2 ?st = single_d"
    "cur_map1 ?st = map_splits_to_nodes caterpillar_abc"
    "cur_map2 ?st = map_splits_to_nodes single_d" "printed ?st = []"
    by (simp_all add: initial_state_def Let_def)
  have join: "join_nodes caterpillar_abc single_d (map_splits_to_nodes caterpillar_abc)
        (map_splits_to_nodes single_d) (Leaf ''a'') (Leaf ''d'') = Inr (Some ?t, None, True)"
    by code_simp
  have join': "join_nodes (cur_tree1 ?st) (cur_tree2 ?st) (cur_map1 ?st) (cur_map2 ?st)
        (Leaf ''a'') (Leaf ''d'') = Inr (Some ?t, None, True)"
    using join by (simp only: trees)
  have full: "get_leaf_set (Br (Br (Br (Leaf ''b'') (Leaf ''c'')) (Leaf ''a'')) (Leaf ''d''))
       = {''a'', ''b'', ''c'', ''d''}"
    by (auto simp: get_leaf_set_def)
  have full': "get_leaf_set (seed_node ?t) = {''a'', ''b'', ''c'', ''d''}"
    using full by (simp add: Tree_def)
  have pool: "length (node_pool ?st) = 4"
    by (simp add: initial_state_def Let_def dm_ad_close_def)
  from early_return_on_spanning_tree [OF n scan join', of "{''a'', ''b'', ''c'', ''d''}"
      "[''a'', ''b'', ''c'', ''d'']"] full'
  have "nj_loop {''a'', ''b'', ''c'', ''d''} [''a'', ''b'', ''c'', ''d''] 4 ?st = Inr (?t, printed ?st @ [4])"
    by blast
  then have res: "nj_loop {''a'', ''b'', ''c'', ''d''} [''a'', ''b'', ''c'', ''d''] 4 ?st = Inr (?t, [4])"
    by (simp only: trees append_Nil)
  from n scan join full pool res show ?thesis by blast
qed

text \<open>
  C8 (as amended). The checks made on entry concern the leaf sets of the two
  trees and the names of the matrix only. Whatever the entries of the matrix,
  negative ones included, an input that passes these two checks goes into the
  loop.
\<close>

theorem entry_checks_ignore_distances:
  "merge_two_trees_via_nj dm tree1 tree2 =
     (if get_leaf_set (seed_node tree1) \<inter> get_leaf_set (seed_node tree2) \<noteq> {}
      then Inl TreesNotDisjoint
      else if get_leaf_set (seed_node tree1) \<union> get_leaf_set (seed_node tree2)
                \<noteq> set (pdm_taxon_namespace dm)
      then Inl NamesDoNotMatch
      else nj_loop (get_leaf_set (seed_node tree1) \<union> get_leaf_set (seed_node tree2))
             (pdm_taxon_namespace dm) (length (mapped_taxa dm)) (initial_state dm tree1 tree2))"
proof -
  have "finite (get_leaf_set (seed_node tree1) \<inter> get_leaf_set (seed_node tree2))"
    by (simp add: get_leaf_set_def)
  then show ?thesis
    by (simp add: merge_two_trees_via_nj_def Let_def)
qed

theorem entry_checks_ignore_distances_witness:
  "merge_two_trees_via_nj dm_negative cherry_ab cherry_cd
     = nj_loop {''a'', ''b'', ''c'', ''d''} [''a'', ''b'', ''c'', ''d''] 4
         (initial_state dm_negative cherry_ab cherry_cd)"
proof -
  have a: "get_leaf_set (seed_node cherry_ab) \<inter> get_leaf_set (seed_node cherry_cd) = {}"
    by (auto simp: cherry_ab_def cherry_cd_def Tree_def get_leaf_set_def)
  have b: "get_leaf_set (seed_node cherry_ab) \<union> get_leaf_set (seed_node cherry_cd)
             = {''a'', ''b'', ''c'', ''d''}"
    by (auto simp: cherry_ab_def cherry_cd_def Tree_def get_leaf_set_def)
  have c: "pdm_taxon_namespace dm_negative = [''a'', ''b'', ''c'', ''d'']"
      "set [''a'', ''b'', ''c'', ''d''] = {''a'', ''b'', ''c'', ''d''}"
      "length (mapped_taxa dm_negative) = 4"
    by (auto simp: dm_negative_def)
  show ?thesis
    using entry_checks_ignore_distances [of dm_negative cherry_ab cherry_cd]
    by (simp only: a b c if_False simp_thms)
qed

text \<open>
  C8 (as stated) fails: a matrix with the entry \<open>d(a, c) = -1\<close> is not rejected;
  the merge runs and returns a tree.
\<close>

theorem negative_distance_accepted:
  "taxon_phylogenetic_distances dm_negative ''a'' ''c'' < 0
   \<and> merge_two_trees_via_nj dm_negative cherry_ab cherry_cd
       = Inr (\<lparr>seed_node = Br (Br (Leaf ''b'') (Br (Leaf ''a'') (Leaf ''c''))) (Leaf ''d''),
               taxon_namespace = [''b'', ''a'', ''c'', ''d'']\<rparr>, [4, 3])"
  by code_simp

text \<open>
  C3. On an input where the only pair of pool nodes is rejected by \<^verbatim>\<open>test_join\<close>,
  the scan leaves \<^verbatim>\<open>nodes_to_join = None\<close> and the unpacking
  \<^verbatim>\<open>(nd1, nd2) = nodes_to_join\<close> fails with Python's \<^verbatim>\<open>TypeError\<close>. The matrix
  object here names five taxa and has distances mapped for two of them.
\<close>

theorem no_pair_accepted_type_error:
  "q_scan 2 (initial_state dm_two_mapped quartet_abcd single_e) = Inr None
   \<and> merge_two_trees_via_nj dm_two_mapped quartet_abcd single_e = Inl TypeError"
  by code_simp

subsection \<open>The scan of the Q-values\<close>

lemma first_accepted_skip:
  assumes "\<forall>u \<in> set us. test u = Inr True" and "test p = Inr False"
  shows "first_accepted test (us @ p # vs) = Inr (Some p)"
  using assms by (induction us) simp_all

lemma insort_key_new:
  "\<exists>us vs. insort_key f p ys = us @ p # vs \<and> (\<forall>u \<in> set us. f u < f p \<and> u \<in> set ys)"
proof (induction ys)
  case Nil
  show ?case by simp
next
  case (Cons y ys)
  show ?case
  proof (cases "f p \<le> f y")
    case True
    then have "insort_key f p (y # ys) = [] @ p # (y # ys)" by simp
    then show ?thesis by fastforce
  next
    case False
    from Cons obtain us vs where
      eq: "insort_key f p ys = us @ p # vs" and small: "\<forall>u \<in> set us. f u < f p \<and> u \<in> set ys"
      by blast
    from False eq have "insort_key f p (y # ys) = (y # us) @ p # vs" by simp
    moreover from False small have "\<forall>u \<in> set (y # us). f u < f p \<and> u \<in> set (y # ys)" by auto
    ultimately show ?thesis by blast
  qed
qed

lemma insort_key_old:
  assumes "sorted (map f (us @ p # vs))"
  shows "\<exists>us' vs'. insort_key f a (us @ p # vs) = us' @ p # vs'
           \<and> set us' \<subseteq> set us \<union> (if f a \<le> f p then {a} else {})"
  using assms
proof (induction us)
  case Nil
  show ?case
  proof (cases "f a \<le> f p")
    case True
    then have "insort_key f a ([] @ p # vs) = [a] @ p # vs" by simp
    with True show ?thesis by fastforce
  next
    case False
    then have "insort_key f a ([] @ p # vs) = [] @ p # insort_key f a vs" by simp
    then show ?thesis by fastforce
  qed
next
  case (Cons u us)
  show ?case
  proof (cases "f a \<le> f u")
    case True
    from Cons.prems have "f u \<le> f p" by simp
    with True have le: "f a \<le> f p" by simp
    from True have "insort_key f a ((u # us) @ p # vs) = (a # u # us) @ p # vs" by simp
    moreover from le have "set (a # u # us) \<subseteq> set (u # us) \<union> (if f a \<le> f p then {a} else {})"
      by auto
    ultimately show ?thesis by blast
  next
    case False
    from Cons.prems have "sorted (map f (us @ p # vs))" by simp
    with Cons.IH obtain us' vs' where
      eq: "insort_key f a (us @ p # vs) = us' @ p # vs'"
      and sub: "set us' \<subseteq> set us \<union> (if f a \<le> f p then {a} else {})"
      by blast
    from False eq have "insort_key f a ((u # us) @ p # vs) = (u # us') @ p # vs'" by simp
    moreover from sub have "set (u # us') \<subseteq> set (u # us) \<union> (if f a \<le> f p then {a} else {})"
      by auto
    ultimately show ?thesis by blast
  qed
qed

lemma sort_key_position:
  "\<exists>us vs. sort_key f (as @ p # bs) = us @ p # vs
     \<and> set us \<subseteq> {a \<in> set as. f a \<le> f p} \<union> {b \<in> set bs. f b < f p}"
proof (induction as)
  case Nil
  from insort_key_new [of f p "sort_key f bs"] obtain us vs where
    eq: "insort_key f p (sort_key f bs) = us @ p # vs"
    and small: "\<forall>u \<in> set us. f u < f p \<and> u \<in> set (sort_key f bs)"
    by blast
  from eq have "sort_key f ([] @ p # bs) = us @ p # vs" by simp
  moreover from small have "set us \<subseteq> {a \<in> set []. f a \<le> f p} \<union> {b \<in> set bs. f b < f p}"
    by auto
  ultimately show ?case by blast
next
  case (Cons a as)
  then obtain us vs where
    eq: "sort_key f (as @ p # bs) = us @ p # vs"
    and sub: "set us \<subseteq> {a \<in> set as. f a \<le> f p} \<union> {b \<in> set bs. f b < f p}"
    by blast
  have "sorted (map f (sort_key f (as @ p # bs)))" by (rule sorted_sort_key)
  with eq have "sorted (map f (us @ p # vs))" by simp
  from insort_key_old [OF this, of a] obtain us' vs' where
    eq': "insort_key f a (us @ p # vs) = us' @ p # vs'"
    and sub': "set us' \<subseteq> set us \<union> (if f a \<le> f p then {a} else {})"
    by blast
  from eq eq' have "sort_key f ((a # as) @ p # bs) = us' @ p # vs'" by simp
  moreover from sub sub'
  have "set us' \<subseteq> {x \<in> set (a # as). f x \<le> f p} \<union> {b \<in> set bs. f b < f p}"
    by (auto split: if_splits)
  ultimately show ?case by blast
qed

text \<open>What the loop of the program has done when it ends with a pair: the pair
  was accepted, every pair before it with a Q-value not larger, and every pair
  after it with a smaller Q-value, was tested and rejected.\<close>

lemma scan_pairs_result:
  assumes "scan_pairs qv test xs best = Inr (Some (m, p))"
  shows "(best = Some (m, p) \<and> (\<forall>x \<in> set xs. qv x < m \<longrightarrow> test x = Inr True))
       \<or> (\<exists>as bs. xs = as @ p # bs \<and> m = qv p \<and> test p = Inr False
             \<and> (case best of None \<Rightarrow> True | Some (m0, p0) \<Rightarrow> qv p < m0)
             \<and> (\<forall>a \<in> set as. qv a \<le> qv p \<longrightarrow> test a = Inr True)
             \<and> (\<forall>b \<in> set bs. qv b < qv p \<longrightarrow> test b = Inr True))"
  using assms
proof (induction xs arbitrary: best)
  case Nil
  then show ?case by simp
next
  case (Cons x xs)
  let ?tested = "case best of None \<Rightarrow> True | Some (min_q, nodes_to_join) \<Rightarrow> qv x < min_q"
  show ?case
  proof (cases ?tested)
    case False
    then obtain m0 p0 where best: "best = Some (m0, p0)" and ge: "\<not> qv x < m0"
      by (auto split: option.splits)
    from False Cons.prems have "scan_pairs qv test xs best = Inr (Some (m, p))" by simp
    from Cons.IH [OF this] show ?thesis
    proof
      assume "best = Some (m, p) \<and> (\<forall>x \<in> set xs. qv x < m \<longrightarrow> test x = Inr True)"
      with best ge show ?thesis by auto
    next
      assume "\<exists>as bs. xs = as @ p # bs \<and> m = qv p \<and> test p = Inr False
             \<and> (case best of None \<Rightarrow> True | Some (m0, p0) \<Rightarrow> qv p < m0)
             \<and> (\<forall>a \<in> set as. qv a \<le> qv p \<longrightarrow> test a = Inr True)
             \<and> (\<forall>b \<in> set bs. qv b < qv p \<longrightarrow> test b = Inr True)"
      then obtain as bs where *: "xs = as @ p # bs" "m = qv p" "test p = Inr False"
        "case best of None \<Rightarrow> True | Some (m0, p0) \<Rightarrow> qv p < m0"
        "\<forall>a \<in> set as. qv a \<le> qv p \<longrightarrow> test a = Inr True"
        "\<forall>b \<in> set bs. qv b < qv p \<longrightarrow> test b = Inr True"
        by blast
      from * best ge have "x # xs = (x # as) @ p # bs"
        and "\<forall>a \<in> set (x # as). qv a \<le> qv p \<longrightarrow> test a = Inr True"
        by auto
      with * show ?thesis by blast
    qed
  next
    case True
    show ?thesis
    proof (cases "test x")
      case (Inl e)
      with True Cons.prems show ?thesis by simp
    next
      case (Inr violates)
      show ?thesis
      proof (cases violates)
        case True
        with \<open>?tested\<close> Inr Cons.prems have "scan_pairs qv test xs best = Inr (Some (m, p))"
          by simp
        from Cons.IH [OF this] show ?thesis
        proof
          assume "best = Some (m, p) \<and> (\<forall>x \<in> set xs. qv x < m \<longrightarrow> test x = Inr True)"
          with True Inr show ?thesis by auto
        next
          assume "\<exists>as bs. xs = as @ p # bs \<and> m = qv p \<and> test p = Inr False
             \<and> (case best of None \<Rightarrow> True | Some (m0, p0) \<Rightarrow> qv p < m0)
             \<and> (\<forall>a \<in> set as. qv a \<le> qv p \<longrightarrow> test a = Inr True)
             \<and> (\<forall>b \<in> set bs. qv b < qv p \<longrightarrow> test b = Inr True)"
          then obtain as bs where *: "xs = as @ p # bs" "m = qv p" "test p = Inr False"
            "case best of None \<Rightarrow> True | Some (m0, p0) \<Rightarrow> qv p < m0"
            "\<forall>a \<in> set as. qv a \<le> qv p \<longrightarrow> test a = Inr True"
            "\<forall>b \<in> set bs. qv b < qv p \<longrightarrow> test b = Inr True"
            by blast
          from * True Inr have "x # xs = (x # as) @ p # bs"
            and "\<forall>a \<in> set (x # as). qv a \<le> qv p \<longrightarrow> test a = Inr True"
            by auto
          with * show ?thesis by blast
        qed
      next
        case False
        with \<open>?tested\<close> Inr Cons.prems
        have "scan_pairs qv test xs (Some (qv x, x)) = Inr (Some (m, p))" by simp
        from Cons.IH [OF this] show ?thesis
        proof
          assume "Some (qv x, x) = Some (m, p) \<and> (\<forall>x \<in> set xs. qv x < m \<longrightarrow> test x = Inr True)"
          then have "x # xs = [] @ p # xs" "m = qv p" "test p = Inr False"
            "\<forall>b \<in> set xs. qv b < qv p \<longrightarrow> test b = Inr True"
            using False Inr by auto
          moreover from \<open>?tested\<close> \<open>x # xs = [] @ p # xs\<close>
          have "case best of None \<Rightarrow> True | Some (m0, p0) \<Rightarrow> qv p < m0"
            by (auto split: option.splits)
          ultimately show ?thesis by fastforce
        next
          assume "\<exists>as bs. xs = as @ p # bs \<and> m = qv p \<and> test p = Inr False
             \<and> (case Some (qv x, x) of None \<Rightarrow> True | Some (m0, p0) \<Rightarrow> qv p < m0)
             \<and> (\<forall>a \<in> set as. qv a \<le> qv p \<longrightarrow> test a = Inr True)
             \<and> (\<forall>b \<in> set bs. qv b < qv p \<longrightarrow> test b = Inr True)"
          then obtain as bs where *: "xs = as @ p # bs" "m = qv p" "test p = Inr False"
            "qv p < qv x"
            "\<forall>a \<in> set as. qv a \<le> qv p \<longrightarrow> test a = Inr True"
            "\<forall>b \<in> set bs. qv b < qv p \<longrightarrow> test b = Inr True"
            by auto
          from * have "x # xs = (x # as) @ p # bs"
            and "\<forall>a \<in> set (x # as). qv a \<le> qv p \<longrightarrow> test a = Inr True"
            by auto
          moreover from * \<open>?tested\<close>
          have "case best of None \<Rightarrow> True | Some (m0, p0) \<Rightarrow> qv p < m0"
            by (auto split: option.splits)
          ultimately show ?thesis using * by blast
        qed
      qed
    qed
  qed
qed

lemma scan_pairs_ascending:
  assumes "scan_pairs qv test xs None = Inr (Some (m, p))"
  shows "ascending_scan qv test xs = Inr (Some p) \<and> m = qv p \<and> p \<in> set xs
       \<and> test p = Inr False \<and> (\<forall>x \<in> set xs. test x = Inr False \<longrightarrow> qv p \<le> qv x)"
proof -
  from scan_pairs_result [OF assms] obtain as bs where
    xs: "xs = as @ p # bs" and m: "m = qv p" and acc: "test p = Inr False"
    and before: "\<forall>a \<in> set as. qv a \<le> qv p \<longrightarrow> test a = Inr True"
    and after: "\<forall>b \<in> set bs. qv b < qv p \<longrightarrow> test b = Inr True"
    by auto
  from sort_key_position [of qv as p bs] obtain us vs where
    sorted: "sort_key qv (as @ p # bs) = us @ p # vs"
    and sub: "set us \<subseteq> {a \<in> set as. qv a \<le> qv p} \<union> {b \<in> set bs. qv b < qv p}"
    by blast
  from sub before after have "\<forall>u \<in> set us. test u = Inr True" by blast
  from first_accepted_skip [OF this acc] sorted xs
  have "ascending_scan qv test xs = Inr (Some p)"
    by (simp add: ascending_scan_def)
  moreover have "\<forall>x \<in> set xs. test x = Inr False \<longrightarrow> qv p \<le> qv x"
  proof (intro ballI impI)
    fix x assume "x \<in> set xs" and ok: "test x = Inr False"
    with xs have "x \<in> set as \<or> x = p \<or> x \<in> set bs" by auto
    with before after ok show "qv p \<le> qv x" by (auto simp: not_less [symmetric])
  qed
  ultimately show ?thesis using m acc xs by simp
qed

text \<open>
  C2. When the scan of an iteration commits a pair, that pair is the one the
  scan in ascending order of Q-value (equal values in the order of the pool
  indices) accepts first; its Q-value is the smallest among the pairs that
  \<^verbatim>\<open>test_join\<close> accepts.
\<close>

theorem committed_pair_is_first_in_ascending_q:
  assumes "q_scan n st = Inr (Some (min_q, nd1, nd2))"
  shows "ascending_scan (qvalue n st)
           (\<lambda>(u, v). test_join (cur_tree1 st) (cur_tree2 st) (cur_map1 st) (cur_map2 st) u v)
           (pool_pairs (node_pool st)) = Inr (Some (nd1, nd2))
       \<and> min_q = qvalue n st (nd1, nd2)
       \<and> (nd1, nd2) \<in> set (pool_pairs (node_pool st))
       \<and> test_join (cur_tree1 st) (cur_tree2 st) (cur_map1 st) (cur_map2 st) nd1 nd2 = Inr False
       \<and> (\<forall>(u, v) \<in> set (pool_pairs (node_pool st)).
             test_join (cur_tree1 st) (cur_tree2 st) (cur_map1 st) (cur_map2 st) u v = Inr False
             \<longrightarrow> qvalue n st (nd1, nd2) \<le> qvalue n st (u, v))"
  using scan_pairs_ascending [OF assms [unfolded q_scan_def]] by auto


theorem committed_pair_is_first_in_ascending_q_witness:
  "q_scan 5 (initial_state dm_ac_close quartet_abcd single_e)
     = Inr (Some (- 5, Leaf ''b'', Leaf ''e''))
   \<and> ascending_scan (qvalue 5 (initial_state dm_ac_close quartet_abcd single_e))
        (\<lambda>(u, v). test_join (cur_tree1 (initial_state dm_ac_close quartet_abcd single_e))
                     (cur_tree2 (initial_state dm_ac_close quartet_abcd single_e))
                     (cur_map1 (initial_state dm_ac_close quartet_abcd single_e))
                     (cur_map2 (initial_state dm_ac_close quartet_abcd single_e)) u v)
        (pool_pairs (node_pool (initial_state dm_ac_close quartet_abcd single_e)))
       = Inr (Some (Leaf ''b'', Leaf ''e''))
   \<and> qvalue 5 (initial_state dm_ac_close quartet_abcd single_e) (Leaf ''a'', Leaf ''c'') < - 5
   \<and> test_join quartet_abcd single_e (map_splits_to_nodes quartet_abcd)
        (map_splits_to_nodes single_e) (Leaf ''a'') (Leaf ''c'') = Inr True
   \<and> qvalue 5 (initial_state dm_ac_close quartet_abcd single_e) (Leaf ''d'', Leaf ''e'') = - 5
   \<and> test_join quartet_abcd single_e (map_splits_to_nodes quartet_abcd)
        (map_splits_to_nodes single_e) (Leaf ''d'') (Leaf ''e'') = Inr False"
proof -
  let ?st = "initial_state dm_ac_close quartet_abcd single_e"
  have scan: "q_scan 5 ?st = Inr (Some (- 5, Leaf ''b'', Leaf ''e''))"
    by code_simp
  have others:
    "qvalue 5 ?st (Leaf ''a'', Leaf ''c'') < - 5
     \<and> test_join quartet_abcd single_e (map_splits_to_nodes quartet_abcd)
          (map_splits_to_nodes single_e) (Leaf ''a'') (Leaf ''c'') = Inr True
     \<and> qvalue 5 ?st (Leaf ''d'', Leaf ''e'') = - 5
     \<and> test_join quartet_abcd single_e (map_splits_to_nodes quartet_abcd)
          (map_splits_to_nodes single_e) (Leaf ''d'') (Leaf ''e'') = Inr False"
    by code_simp
  from committed_pair_is_first_in_ascending_q [OF scan]
  have "ascending_scan (qvalue 5 ?st)
          (\<lambda>(u, v). test_join (cur_tree1 ?st) (cur_tree2 ?st) (cur_map1 ?st) (cur_map2 ?st) u v)
          (pool_pairs (node_pool ?st)) = Inr (Some (Leaf ''b'', Leaf ''e''))"
    by (rule conjunct1)
  with scan others show ?thesis by blast
qed

subsection \<open>Bitmasks and their complements\<close>

lemma bit_bits_from:
  "bit (bits_from i tns S) k \<longleftrightarrow> i \<le> k \<and> k - i < length tns \<and> tns ! (k - i) \<in> S"
proof (induction tns arbitrary: i k)
  case Nil
  show ?case by simp
next
  case (Cons x xs)
  have one: "bit ((2::nat) ^ i) k \<longleftrightarrow> k = i"
    by (auto simp: bit_exp_iff)
  show ?case
  proof (cases "k = i")
    case True
    then show ?thesis by (simp add: bit_or_iff bit_exp_iff Cons.IH)
  next
    case False
    then have "i \<le> k \<longleftrightarrow> Suc i \<le> k" by auto
    moreover have "Suc i \<le> k \<Longrightarrow> k - i = Suc (k - Suc i)" by simp
    ultimately show ?thesis using False
      by (auto simp: bit_or_iff one Cons.IH)
  qed
qed

lemma bits_from_Un: "bits_from i tns (A \<union> B) = bits_from i tns A OR bits_from i tns B"
  by (rule bit_eqI) (auto simp: bit_bits_from bit_or_iff)

lemma leafset_bitmask_bits_from:
  "leafset_bitmask tns v = bits_from 0 tns (get_leaf_set v)"
  by (induction v) (simp_all add: taxa_bitmask_def get_leaf_set_def bits_from_Un)

lemma bits_from_all:
  assumes "set tns \<subseteq> S"
  shows "bits_from 0 tns S = mask (length tns)"
  using assms by (intro bit_eqI) (auto simp: bit_bits_from bit_mask_iff)

lemma bits_from_cong:
  assumes "A \<inter> set tns = B \<inter> set tns"
  shows "bits_from i tns A = bits_from i tns B"
proof (rule bit_eqI)
  fix k
  have "\<And>j. j < length tns \<Longrightarrow> tns ! j \<in> A \<longleftrightarrow> tns ! j \<in> B"
    using assms nth_mem by blast
  then show "bit (bits_from i tns A) k = bit (bits_from i tns B) k"
    by (auto simp: bit_bits_from)
qed

lemma bits_from_inj:
  assumes "bits_from 0 tns A = bits_from 0 tns B"
  shows "A \<inter> set tns = B \<inter> set tns"
proof -
  have "x \<in> A \<longleftrightarrow> x \<in> B" if "x \<in> set tns" for x
  proof -
    from that obtain j where j: "j < length tns" "tns ! j = x"
      by (auto simp: in_set_conv_nth)
    from assms have "bit (bits_from 0 tns A) j = bit (bits_from 0 tns B) j" by simp
    with j show ?thesis by (simp add: bit_bits_from)
  qed
  then show ?thesis by blast
qed

lemma bits_from_complement:
  assumes "set tns \<subseteq> L"
  shows "bits_from 0 tns A + bits_from 0 tns (L - A) = mask (length tns)"
proof -
  have "bits_from 0 tns A + bits_from 0 tns (L - A) = bits_from 0 tns A OR bits_from 0 tns (L - A)"
    by (rule disjunctive_add) (auto simp: bit_bits_from)
  also have "\<dots> = bits_from 0 tns (A \<union> (L - A))"
    by (rule bits_from_Un [symmetric])
  also have "\<dots> = mask (length tns)"
    using assms by (intro bits_from_all) auto
  finally show ?thesis .
qed

lemma bit_length_mask: "bit_length (mask n) = n"
proof (induction n)
  case 0
  show ?case by (simp add: bit_length.simps)
next
  case (Suc n)
  have half: "(mask (Suc n) :: nat) div 2 = mask n"
    by (simp add: mask_eq_exp_minus_1)
  have "(1::nat) \<le> 2 ^ n" by simp
  moreover have "(mask (Suc n) :: nat) = 2 * 2 ^ n - 1"
    by (simp add: mask_eq_exp_minus_1)
  ultimately have "(mask (Suc n) :: nat) \<noteq> 0"
    by linarith
  then show ?case
    by (simp add: bit_length.simps [of "mask (Suc n)"] half Suc.IH)
qed

lemma int_base2_foldl:
  "foldl (\<lambda>acc c. 2 * acc + (if c = CHR ''1'' then 1 else 0)) a s
     = a * 2 ^ length s + int_base2 s"
proof (induction s arbitrary: a rule: rev_induct)
  case Nil
  show ?case by (simp add: int_base2_def)
next
  case (snoc c s)
  define d :: nat where "d = (if c = CHR ''1'' then 1 else 0)"
  define Fa where "Fa = foldl (\<lambda>acc c. 2 * acc + (if c = CHR ''1'' then 1 else 0)) a s"
  define F0 where "F0 = int_base2 s"
  have IH: "Fa = a * 2 ^ length s + F0"
    unfolding Fa_def F0_def by (rule snoc.IH)
  have step0: "int_base2 (s @ [c]) = 2 * F0 + d"
    by (simp add: int_base2_def F0_def d_def)
  have "foldl (\<lambda>acc c. 2 * acc + (if c = CHR ''1'' then 1 else 0)) a (s @ [c]) = 2 * Fa + d"
    by (simp add: Fa_def d_def)
  also have "\<dots> = a * 2 ^ length (s @ [c]) + (2 * F0 + d)"
    by (simp add: IH algebra_simps)
  finally show ?case by (simp only: step0)
qed

lemma int_base2_Cons:
  "int_base2 (c # s) = (if c = CHR ''1'' then 1 else 0) * 2 ^ length s + int_base2 s"
  using int_base2_foldl [of "if c = CHR ''1'' then 1 else 0" s]
  by (simp add: int_base2_def)

text \<open>Swapping the digits of the bitstring and reading it back gives the
  complement of the mask within the length of the string.\<close>

lemma complement_bitstring:
  "int_base2 (translate_10_01 (split_as_bitstring len m)) + take_bit len m = mask len"
proof (induction len)
  case 0
  show ?case by (simp add: int_base2_def translate_10_01_def split_as_bitstring_def)
next
  case (Suc len)
  have "split_as_bitstring (Suc len) m
          = (if bit m len then CHR ''1'' else CHR ''0'') # split_as_bitstring len m"
    by (simp add: split_as_bitstring_def)
  then have "int_base2 (translate_10_01 (split_as_bitstring (Suc len) m))
          = (if bit m len then 0 else 1) * 2 ^ len
            + int_base2 (translate_10_01 (split_as_bitstring len m))"
    by (simp add: translate_10_01_def int_base2_Cons split_as_bitstring_def)
  moreover have "take_bit (Suc len) m = 2 ^ len * of_bool (bit m len) + take_bit len m"
    by (rule take_bit_Suc_from_most)
  moreover have "(mask (Suc len) :: nat) = 2 ^ len + mask len"
    by (simp add: mask_eq_exp_minus_1)
  ultimately show ?case using Suc.IH by simp
qed

subsection \<open>The nodes of a tree with distinct leaf labels\<close>

lemma get_leaf_set_simps [simp]:
  "get_leaf_set (Leaf x) = {x}"
  "get_leaf_set (Br l r) = get_leaf_set l \<union> get_leaf_set r"
  by (simp_all add: get_leaf_set_def)

lemma get_leaf_set_nonempty: "get_leaf_set v \<noteq> {}"
  by (induction v) simp_all

lemma postorder_self [simp]: "v \<in> set (postorder v)"
  by (cases v) simp_all

lemma postorder_snoc: "\<exists>vs. postorder v = vs @ [v]"
  by (cases v) simp_all

lemma postorder_subset:
  "v \<in> set (postorder t) \<Longrightarrow> get_leaf_set v \<subseteq> get_leaf_set t"
  by (induction t) auto

lemma distinct_leaves_Br:
  assumes "distinct (get_leaf_list (Br l r))"
  shows "distinct (get_leaf_list l)" and "distinct (get_leaf_list r)"
    and "get_leaf_set l \<inter> get_leaf_set r = {}"
  using assms by (simp_all add: get_leaf_set_def)

text \<open>A node is determined by the set of leaves below it.\<close>

lemma node_by_clade:
  assumes "distinct (get_leaf_list t)"
    and "v \<in> set (postorder t)" and "w \<in> set (postorder t)"
    and "get_leaf_set v = get_leaf_set w"
  shows "v = w"
  using assms
proof (induction t)
  case (Leaf x)
  then show ?case by simp
next
  case (Br l r)
  note d = distinct_leaves_Br [OF Br.prems(1)]
  have sub: "\<And>u. u \<in> set (postorder l) \<Longrightarrow> get_leaf_set u \<subseteq> get_leaf_set l"
       "\<And>u. u \<in> set (postorder r) \<Longrightarrow> get_leaf_set u \<subseteq> get_leaf_set r"
    by (auto dest: postorder_subset)
  have ne: "\<And>u. get_leaf_set u \<noteq> {}" by (rule get_leaf_set_nonempty)
  from Br.prems(2) have v: "v \<in> set (postorder l) \<or> v \<in> set (postorder r) \<or> v = Br l r"
    by auto
  from Br.prems(3) have w: "w \<in> set (postorder l) \<or> w \<in> set (postorder r) \<or> w = Br l r"
    by auto
  have whole: False
    if "u \<in> set (postorder l) \<or> u \<in> set (postorder r)"
      and "get_leaf_set u = get_leaf_set (Br l r)" for u
  proof -
    from that(1) have "get_leaf_set u \<subseteq> get_leaf_set l \<or> get_leaf_set u \<subseteq> get_leaf_set r"
      using sub by blast
    with that(2) d(3) ne [of l] ne [of r] show False by auto
  qed
  have cross: False
    if "a \<in> set (postorder l)" "b \<in> set (postorder r)" "get_leaf_set a = get_leaf_set b" for a b
  proof -
    from that sub have "get_leaf_set a \<subseteq> get_leaf_set l \<inter> get_leaf_set r" by blast
    with d(3) ne [of a] show False by auto
  qed
  from v w show ?case
  proof (elim disjE)
    assume "v \<in> set (postorder l)" "w \<in> set (postorder l)"
    with Br.IH(1) d(1) Br.prems(4) show ?thesis by blast
  next
    assume "v \<in> set (postorder r)" "w \<in> set (postorder r)"
    with Br.IH(2) d(2) Br.prems(4) show ?thesis by blast
  next
    assume "v \<in> set (postorder l)" "w \<in> set (postorder r)"
    with cross Br.prems(4) show ?thesis by blast
  next
    assume "v \<in> set (postorder r)" "w \<in> set (postorder l)"
    with cross [of w v] Br.prems(4) show ?thesis by auto
  next
    assume "v = Br l r" "w \<in> set (postorder l)"
    with whole [of w] Br.prems(4) show ?thesis by auto
  next
    assume "v = Br l r" "w \<in> set (postorder r)"
    with whole [of w] Br.prems(4) show ?thesis by auto
  next
    assume "v \<in> set (postorder l)" "w = Br l r"
    with whole [of v] Br.prems(4) show ?thesis by auto
  next
    assume "v \<in> set (postorder r)" "w = Br l r"
    with whole [of v] Br.prems(4) show ?thesis by auto
  next
    assume "v = Br l r" "w = Br l r"
    then show ?thesis by simp
  qed
qed

text \<open>Two nodes whose leaf sets are complements of each other are the two
  children of the seed node.\<close>

lemma complementary_nodes:
  assumes "distinct (get_leaf_list t)"
    and "v \<in> set (postorder t)" and "w \<in> set (postorder t)"
    and "get_leaf_set w = get_leaf_set t - get_leaf_set v"
  shows "\<exists>l r. t = Br l r \<and> ((v = l \<and> w = r) \<or> (v = r \<and> w = l))"
proof (cases t)
  case (Leaf x)
  with assms(2,3,4) show ?thesis by simp
next
  case (Br l r)
  note d = distinct_leaves_Br [OF assms(1) [unfolded Br]]
  have sub: "\<And>u. u \<in> set (postorder l) \<Longrightarrow> get_leaf_set u \<subseteq> get_leaf_set l"
       "\<And>u. u \<in> set (postorder r) \<Longrightarrow> get_leaf_set u \<subseteq> get_leaf_set r"
    by (auto dest: postorder_subset)
  have ne: "\<And>u. get_leaf_set u \<noteq> {}" by (rule get_leaf_set_nonempty)
  have vsub: "get_leaf_set v \<subseteq> get_leaf_set t"
    using assms(2) by (rule postorder_subset)
  have union: "get_leaf_set v \<union> get_leaf_set w = get_leaf_set l \<union> get_leaf_set r"
    and disj: "get_leaf_set v \<inter> get_leaf_set w = {}"
    using assms(4) vsub Br by auto
  from assms(2) Br have v: "v \<in> set (postorder l) \<or> v \<in> set (postorder r) \<or> v = Br l r"
    by auto
  from assms(3) Br have w: "w \<in> set (postorder l) \<or> w \<in> set (postorder r) \<or> w = Br l r"
    by auto
  have sides: "a = l \<and> b = r"
    if "a \<in> set (postorder l)" "b \<in> set (postorder r)"
      "get_leaf_set a \<union> get_leaf_set b = get_leaf_set l \<union> get_leaf_set r" for a b
  proof -
    from that sub have "get_leaf_set a \<subseteq> get_leaf_set l" "get_leaf_set b \<subseteq> get_leaf_set r"
      by blast+
    with that(3) d(3) have "get_leaf_set a = get_leaf_set l" "get_leaf_set b = get_leaf_set r"
      by blast+
    with node_by_clade [OF d(1) that(1) postorder_self] node_by_clade [OF d(2) that(2) postorder_self]
    show ?thesis by blast
  qed
  from v w show ?thesis
  proof (elim disjE)
    assume "v \<in> set (postorder l)" "w \<in> set (postorder l)"
    with sub have "get_leaf_set v \<union> get_leaf_set w \<subseteq> get_leaf_set l" by blast
    with union d(3) ne [of r] show ?thesis by auto
  next
    assume "v \<in> set (postorder r)" "w \<in> set (postorder r)"
    with sub have "get_leaf_set v \<union> get_leaf_set w \<subseteq> get_leaf_set r" by blast
    with union d(3) ne [of l] show ?thesis by auto
  next
    assume "v \<in> set (postorder l)" "w \<in> set (postorder r)"
    with sides [of v w] union Br show ?thesis by blast
  next
    assume "v \<in> set (postorder r)" "w \<in> set (postorder l)"
    with sides [of w v] union Br show ?thesis by (auto simp: Un_commute)
  next
    assume "v = Br l r"
    with disj union ne [of w] show ?thesis by auto
  next
    assume "v = Br l r"
    with disj union ne [of w] show ?thesis by auto
  next
    assume "w = Br l r"
    with disj union ne [of v] show ?thesis by auto
  next
    assume "w = Br l r"
    with disj union ne [of v] show ?thesis by auto
  next
    assume "v = Br l r"
    with disj union ne [of w] show ?thesis by auto
  qed
qed

subsection \<open>What the split-to-node map holds\<close>

text \<open>The dictionary is written edge after edge, so a key holds the node of the
  last edge whose bitmask, or whose complemented bitmask, is that key.\<close>

lemma fold_last_writer:
  "fold (\<lambda>(bitmask1, nd) split_to_node_map.
            split_to_node_map(bitmask1 \<mapsto> nd,
              int_base2 (translate_10_01 (split_as_bitstring len bitmask1)) \<mapsto> nd))
        (map (\<lambda>v. (f v, v)) vs) m k
   = (if filter (\<lambda>v. f v = k \<or> int_base2 (translate_10_01 (split_as_bitstring len (f v))) = k) vs = []
      then m k
      else Some (last (filter
             (\<lambda>v. f v = k \<or> int_base2 (translate_10_01 (split_as_bitstring len (f v))) = k) vs)))"
  by (induction vs arbitrary: m) simp_all

lemma map_splits_to_nodes_last:
  "map_splits_to_nodes t k =
     (if filter (\<lambda>v. leafset_bitmask (taxon_namespace t) v = k
                   \<or> int_base2 (translate_10_01 (split_as_bitstring
                        (bit_length (leafset_bitmask (taxon_namespace t) (seed_node t)))
                        (leafset_bitmask (taxon_namespace t) v))) = k)
               (postorder (seed_node t)) = []
      then None
      else Some (last (filter (\<lambda>v. leafset_bitmask (taxon_namespace t) v = k
                   \<or> int_base2 (translate_10_01 (split_as_bitstring
                        (bit_length (leafset_bitmask (taxon_namespace t) (seed_node t)))
                        (leafset_bitmask (taxon_namespace t) v))) = k)
               (postorder (seed_node t)))))"
  unfolding map_splits_to_nodes_def bipartition_edge_map_def Let_def
  by (simp only: fold_last_writer)

text \<open>With a namespace that holds exactly the leaves of the tree, the complemented
  bitmask of an edge is the bitmask of the leaves on the other side.\<close>

lemma complement_is_other_side:
  assumes ns: "set tns = L" and sub: "C \<subseteq> L"
  shows "int_base2 (translate_10_01 (split_as_bitstring (bit_length (bits_from 0 tns L))
           (bits_from 0 tns C))) = bits_from 0 tns (L - C)"
proof -
  have full: "bits_from 0 tns L = mask (length tns)"
    using ns by (intro bits_from_all) simp
  have sum: "bits_from 0 tns C + bits_from 0 tns (L - C) = mask (length tns)"
    using ns by (intro bits_from_complement) simp
  then have "bits_from 0 tns C \<le> mask (length tns)" by linarith
  moreover have "(mask (length tns) :: nat) < 2 ^ length tns"
    by (simp add: mask_eq_exp_minus_1)
  ultimately have "take_bit (length tns) (bits_from 0 tns C) = bits_from 0 tns C"
    by (intro take_bit_nat_eq_self) linarith
  with complement_bitstring [of "length tns" "bits_from 0 tns C"]
  have "int_base2 (translate_10_01 (split_as_bitstring (length tns) (bits_from 0 tns C)))
          + bits_from 0 tns C = mask (length tns)"
    by simp
  with sum have "int_base2 (translate_10_01 (split_as_bitstring (length tns) (bits_from 0 tns C)))
          = bits_from 0 tns (L - C)"
    by linarith
  then show ?thesis by (simp add: full bit_length_mask)
qed

lemma bits_from_eq_iff:
  assumes "set tns = L" and "A \<subseteq> L" and "B \<subseteq> L"
  shows "bits_from 0 tns A = bits_from 0 tns B \<longleftrightarrow> A = B"
proof
  assume "bits_from 0 tns A = bits_from 0 tns B"
  from bits_from_inj [OF this] assms show "A = B" by blast
qed simp

text \<open>The lookup of a set of leaves of the tree: the last node, in the order in
  which the edges are visited, that has this set on one of its two sides.\<close>

lemma map_splits_to_nodes_clade:
  assumes ns: "set (taxon_namespace t) = get_leaf_set (seed_node t)"
    and sub: "S \<subseteq> get_leaf_set (seed_node t)"
  shows "map_splits_to_nodes t (bits_from 0 (taxon_namespace t) S) =
     (if filter (\<lambda>v. get_leaf_set v = S \<or> get_leaf_set (seed_node t) - get_leaf_set v = S)
               (postorder (seed_node t)) = []
      then None
      else Some (last (filter
              (\<lambda>v. get_leaf_set v = S \<or> get_leaf_set (seed_node t) - get_leaf_set v = S)
              (postorder (seed_node t)))))"
proof -
  let ?tns = "taxon_namespace t" and ?L = "get_leaf_set (seed_node t)"
  let ?k = "bits_from 0 ?tns S"
  let ?P = "\<lambda>v. leafset_bitmask ?tns v = ?k
                   \<or> int_base2 (translate_10_01 (split_as_bitstring
                        (bit_length (leafset_bitmask ?tns (seed_node t)))
                        (leafset_bitmask ?tns v))) = ?k"
  let ?Q = "\<lambda>v. get_leaf_set v = S \<or> ?L - get_leaf_set v = S"
  have "?P v = ?Q v" if "v \<in> set (postorder (seed_node t))" for v
  proof -
    from that have c: "get_leaf_set v \<subseteq> ?L" by (rule postorder_subset)
    have "leafset_bitmask ?tns v = ?k \<longleftrightarrow> get_leaf_set v = S"
      using bits_from_eq_iff [OF ns c sub] by (simp add: leafset_bitmask_bits_from)
    moreover have "int_base2 (translate_10_01 (split_as_bitstring
                        (bit_length (leafset_bitmask ?tns (seed_node t)))
                        (leafset_bitmask ?tns v))) = ?k \<longleftrightarrow> ?L - get_leaf_set v = S"
      using complement_is_other_side [OF ns c] bits_from_eq_iff [OF ns _ sub, of "?L - get_leaf_set v"]
      by (simp add: leafset_bitmask_bits_from)
    ultimately show ?thesis by simp
  qed
  then have "filter ?P (postorder (seed_node t)) = filter ?Q (postorder (seed_node t))"
    by (intro filter_cong) auto
  then show ?thesis
    by (simp only: map_splits_to_nodes_last [of t ?k])
qed

lemma last_filter_snoc: "P x \<Longrightarrow> last (filter P (xs @ [x])) = x"
  by simp

text \<open>Key 0 holds the seed node.\<close>

lemma map_splits_to_nodes_zero:
  assumes ns: "set (taxon_namespace t) = get_leaf_set (seed_node t)"
  shows "map_splits_to_nodes t 0 = Some (seed_node t)"
proof -
  let ?L = "get_leaf_set (seed_node t)"
  let ?Q = "\<lambda>v. get_leaf_set v = {} \<or> ?L - get_leaf_set v = {}"
  obtain vs where vs: "postorder (seed_node t) = vs @ [seed_node t]"
    using postorder_snoc by blast
  have q: "?Q (seed_node t)" by simp
  have "filter ?Q (postorder (seed_node t)) \<noteq> []"
    using q vs by simp
  moreover have "last (filter ?Q (postorder (seed_node t))) = seed_node t"
    using q vs by simp
  moreover have "bits_from 0 (taxon_namespace t) {} = 0"
    by (rule bit_eqI) (simp add: bit_bits_from)
  ultimately show ?thesis
    using map_splits_to_nodes_clade [OF ns, of "{}"] by simp
qed

text \<open>The three answers of the lookup in the map built from the tree itself.\<close>

lemma get_node_from_clade_built:
  assumes ns: "set (taxon_namespace t) = get_leaf_set (seed_node t)"
  shows "get_node_from_clade t (map_splits_to_nodes t) S =
     (if set S = get_leaf_set (seed_node t) then Inr (Some (seed_node t))
      else if \<not> set S \<subseteq> get_leaf_set (seed_node t) then Inr None
      else Inr (map_splits_to_nodes t (taxa_bitmask (taxon_namespace t) S)))"
proof -
  let ?L = "get_leaf_set (seed_node t)"
  have fin: "finite (set S)" by simp
  have "card (?L \<inter> set S) < card (set S) \<longleftrightarrow> \<not> set S \<subseteq> ?L"
  proof
    assume "card (?L \<inter> set S) < card (set S)"
    then show "\<not> set S \<subseteq> ?L" by (auto simp: Int_absorb1)
  next
    assume "\<not> set S \<subseteq> ?L"
    then have "?L \<inter> set S \<subset> set S" by blast
    then show "card (?L \<inter> set S) < card (set S)"
      by (intro psubset_card_mono) simp_all
  qed
  then show ?thesis
    using map_splits_to_nodes_zero [OF ns]
    by (auto simp: get_node_from_clade_def Let_def)
qed

text \<open>
  C6 (as amended). For a tree whose namespace holds exactly its leaves, with the
  map built by \<^verbatim>\<open>map_splits_to_nodes\<close>: a label set equal to the leaf set is answered
  with the entry at key 0, which is the seed node; a label set with a label that
  is not a leaf of the tree is answered with \<^verbatim>\<open>None\<close>, without any lookup; any
  other label set is answered with what the map holds at its bitmask.
\<close>

theorem get_node_from_clade_cases:
  assumes ns: "set (taxon_namespace t) = get_leaf_set (seed_node t)"
  shows "get_node_from_clade t (map_splits_to_nodes t) S =
     (if set S = get_leaf_set (seed_node t) then Inr (Some (seed_node t))
      else if \<not> set S \<subseteq> get_leaf_set (seed_node t) then Inr None
      else Inr (map_splits_to_nodes t (taxa_bitmask (taxon_namespace t) S)))"
  using ns by (rule get_node_from_clade_built)

theorem get_node_from_clade_cases_witness:
  "set (taxon_namespace cherry_ab) = get_leaf_set (seed_node cherry_ab)
   \<and> get_node_from_clade cherry_ab (map_splits_to_nodes cherry_ab) [''b'', ''a'']
       = Inr (Some (seed_node cherry_ab))
   \<and> get_node_from_clade cherry_ab (map_splits_to_nodes cherry_ab) [''a'', ''x''] = Inr None
   \<and> get_node_from_clade cherry_ab (map_splits_to_nodes cherry_ab) [''b'']
       = Inr (map_splits_to_nodes cherry_ab (taxa_bitmask (taxon_namespace cherry_ab) [''b'']))"
proof -
  have ns: "set (taxon_namespace cherry_ab) = get_leaf_set (seed_node cherry_ab)"
    by code_simp
  have whole_set: "set [''b'', ''a''] = get_leaf_set (seed_node cherry_ab)"
    by code_simp
  have outside_set: "set [''a'', ''x''] \<noteq> get_leaf_set (seed_node cherry_ab)"
    "\<not> set [''a'', ''x''] \<subseteq> get_leaf_set (seed_node cherry_ab)"
    by code_simp+
  have inside_set: "set [''b''] \<noteq> get_leaf_set (seed_node cherry_ab)"
    "set [''b''] \<subseteq> get_leaf_set (seed_node cherry_ab)"
    by code_simp+
  have whole: "get_node_from_clade cherry_ab (map_splits_to_nodes cherry_ab) [''b'', ''a'']
       = Inr (Some (seed_node cherry_ab))"
    using get_node_from_clade_cases [OF ns, of "[''b'', ''a'']"]
    by (simp only: whole_set simp_thms if_True)
  have outside: "get_node_from_clade cherry_ab (map_splits_to_nodes cherry_ab) [''a'', ''x'']
       = Inr None"
    using get_node_from_clade_cases [OF ns, of "[''a'', ''x'']"]
    by (simp only: outside_set if_False if_True simp_thms)
  have inside: "get_node_from_clade cherry_ab (map_splits_to_nodes cherry_ab) [''b'']
       = Inr (map_splits_to_nodes cherry_ab (taxa_bitmask (taxon_namespace cherry_ab) [''b'']))"
    using get_node_from_clade_cases [OF ns, of "[''b'']"]
    by (simp only: inside_set if_False if_True simp_thms)
  from ns whole outside inside show ?thesis by (intro conjI)
qed

text \<open>
  C6 (as stated) fails: for the cherry \<open>(a, b)\<close> and the labels \<open>{a, x}\<close>, the
  bitmask of the labels restricted to the leaves of the tree is the bitmask of
  \<open>{a}\<close>, which the map holds; the lookup answers \<^verbatim>\<open>None\<close> all the same.
\<close>

theorem foreign_label_not_looked_up:
  "taxa_bitmask (taxon_namespace cherry_ab)
      (filter (\<lambda>x. x \<in> get_leaf_set (seed_node cherry_ab)) [''a'', ''x'']) = 1
   \<and> map_splits_to_nodes cherry_ab 1 = Some (Leaf ''b'')
   \<and> get_node_from_clade cherry_ab (map_splits_to_nodes cherry_ab) [''a'', ''x''] = Inr None"
  by code_simp

text \<open>
  C7 (as amended). In a tree with distinct leaf labels whose namespace holds
  exactly its leaves, take a node \<open>v\<close> other than the seed node. The lookup of the
  leaves below \<open>v\<close> and the lookup of all the other leaves give one and the same
  node \<open>w\<close>, with the leaves of \<open>v\<close> on one side of its edge. If \<open>v\<close> is not a
  child of the seed node, \<open>w\<close> is \<open>v\<close>.
\<close>

theorem split_symmetry:
  assumes dist: "distinct (get_leaf_list (seed_node t))"
    and ns: "set (taxon_namespace t) = get_leaf_set (seed_node t)"
    and v: "v \<in> set (postorder (seed_node t))"
    and not_seed: "v \<noteq> seed_node t"
  shows "\<exists>w \<in> set (postorder (seed_node t)).
           get_node_from_clade t (map_splits_to_nodes t) (get_leaf_list v) = Inr (Some w)
         \<and> get_node_from_clade t (map_splits_to_nodes t)
              (filter (\<lambda>x. x \<notin> get_leaf_set v) (get_leaf_list (seed_node t))) = Inr (Some w)
         \<and> (get_leaf_set w = get_leaf_set v
              \<or> get_leaf_set w = get_leaf_set (seed_node t) - get_leaf_set v)
         \<and> ((\<forall>l r. seed_node t = Br l r \<longrightarrow> v \<noteq> l \<and> v \<noteq> r) \<longrightarrow> w = v)"
proof -
  let ?L = "get_leaf_set (seed_node t)" and ?C = "get_leaf_set v"
  let ?M = "map_splits_to_nodes t" and ?nodes = "postorder (seed_node t)"
  let ?rest = "filter (\<lambda>x. x \<notin> ?C) (get_leaf_list (seed_node t))"
  have sub: "?C \<subseteq> ?L" using v by (rule postorder_subset)
  have ne: "?C \<noteq> {}" by (rule get_leaf_set_nonempty)
  have proper: "?C \<noteq> ?L"
    using node_by_clade [OF dist v postorder_self] not_seed by blast
  have rest: "set ?rest = ?L - ?C" by (auto simp: get_leaf_set_def)
  let ?Q = "\<lambda>u. get_leaf_set u = ?C \<or> ?L - get_leaf_set u = ?C"
  let ?Q' = "\<lambda>u. get_leaf_set u = ?L - ?C \<or> ?L - get_leaf_set u = ?L - ?C"
  have "?Q u = ?Q' u" if "u \<in> set ?nodes" for u
  proof -
    from that have "get_leaf_set u \<subseteq> ?L" by (rule postorder_subset)
    with sub show ?thesis by blast
  qed
  then have same: "filter ?Q' ?nodes = filter ?Q ?nodes"
    by (intro filter_cong) auto
  have nonempty: "filter ?Q ?nodes \<noteq> []"
    using v by (auto simp: filter_empty_conv)
  define w where "w = last (filter ?Q ?nodes)"
  from nonempty have "w \<in> set (filter ?Q ?nodes)"
    unfolding w_def by (rule last_in_set)
  then have w: "w \<in> set ?nodes" and qw: "?Q w" by auto
  have key1: "?M (bits_from 0 (taxon_namespace t) ?C) = Some w"
    using map_splits_to_nodes_clade [OF ns sub] nonempty by (simp add: w_def)
  have key2: "?M (bits_from 0 (taxon_namespace t) (?L - ?C)) = Some w"
    using map_splits_to_nodes_clade [OF ns, of "?L - ?C"] nonempty same
    by (simp add: w_def)
  have look1: "get_node_from_clade t ?M (get_leaf_list v) = Inr (Some w)"
    using get_node_from_clade_built [OF ns, of "get_leaf_list v"] proper sub key1
    by (simp add: get_leaf_set_def taxa_bitmask_def)
  have "set ?rest \<noteq> ?L" using rest sub ne by blast
  moreover have "set ?rest \<subseteq> ?L" using rest by blast
  ultimately have look2: "get_node_from_clade t ?M ?rest = Inr (Some w)"
    using get_node_from_clade_built [OF ns, of ?rest] key2 rest
    by (simp add: taxa_bitmask_def)
  have side: "get_leaf_set w = ?C \<or> get_leaf_set w = ?L - ?C"
  proof -
    from w have "get_leaf_set w \<subseteq> ?L" by (rule postorder_subset)
    with qw sub show ?thesis by blast
  qed
  have inner: "w = v" if far: "\<forall>l r. seed_node t = Br l r \<longrightarrow> v \<noteq> l \<and> v \<noteq> r"
  proof -
    from side show ?thesis
    proof
      assume "get_leaf_set w = ?C"
      with node_by_clade [OF dist w v] show ?thesis by simp
    next
      assume "get_leaf_set w = ?L - ?C"
      from complementary_nodes [OF dist v w this] far show ?thesis by blast
    qed
  qed
  from w look1 look2 side inner show ?thesis by blast
qed

theorem split_symmetry_witness:
  "distinct (get_leaf_list (seed_node quartet_abcd))
   \<and> set (taxon_namespace quartet_abcd) = get_leaf_set (seed_node quartet_abcd)
   \<and> Leaf ''a'' \<in> set (postorder (seed_node quartet_abcd))
   \<and> Leaf ''a'' \<noteq> seed_node quartet_abcd
   \<and> get_node_from_clade quartet_abcd (map_splits_to_nodes quartet_abcd)
        (get_leaf_list (Leaf ''a'')) = Inr (Some (Leaf ''a''))
   \<and> get_node_from_clade quartet_abcd (map_splits_to_nodes quartet_abcd)
        (filter (\<lambda>x. x \<notin> get_leaf_set (Leaf ''a'')) (get_leaf_list (seed_node quartet_abcd)))
       = Inr (Some (Leaf ''a''))"
proof -
  let ?t = quartet_abcd
  have dist: "distinct (get_leaf_list (seed_node ?t))"
    by (simp add: quartet_abcd_def Tree_def)
  have ns: "set (taxon_namespace ?t) = get_leaf_set (seed_node ?t)"
    by (simp add: quartet_abcd_def Tree_def get_leaf_set_def)
  have a: "Leaf ''a'' \<in> set (postorder (seed_node ?t))" "Leaf ''a'' \<noteq> seed_node ?t"
    by (simp_all add: quartet_abcd_def Tree_def)
  have far: "\<forall>l r. seed_node ?t = Br l r \<longrightarrow> Leaf ''a'' \<noteq> l \<and> Leaf ''a'' \<noteq> r"
    by (simp add: quartet_abcd_def Tree_def)
  from split_symmetry [OF dist ns a] obtain w where
    l1: "get_node_from_clade ?t (map_splits_to_nodes ?t) (get_leaf_list (Leaf ''a'')) = Inr (Some w)"
    and l2: "get_node_from_clade ?t (map_splits_to_nodes ?t)
        (filter (\<lambda>x. x \<notin> get_leaf_set (Leaf ''a'')) (get_leaf_list (seed_node ?t))) = Inr (Some w)"
    and imp: "(\<forall>l r. seed_node ?t = Br l r \<longrightarrow> Leaf ''a'' \<noteq> l \<and> Leaf ''a'' \<noteq> r) \<longrightarrow> w = Leaf ''a''"
    by blast
  from imp far have "w = Leaf ''a''" by (rule mp)
  with l1 l2
  have r2: "get_node_from_clade ?t (map_splits_to_nodes ?t)
        (get_leaf_list (Leaf ''a'')) = Inr (Some (Leaf ''a''))"
    and r3: "get_node_from_clade ?t (map_splits_to_nodes ?t)
        (filter (\<lambda>x. x \<notin> get_leaf_set (Leaf ''a'')) (get_leaf_list (seed_node ?t)))
       = Inr (Some (Leaf ''a''))"
    by (simp_all only:)
  from dist ns a r2 r3 show ?thesis by (intro conjI)
qed

text \<open>
  C7 (as stated) fails at the children of the seed node: in the cherry \<open>(a, b)\<close>
  the leaf \<open>a\<close> is a node whose clade \<open>{a}\<close> is a proper nonempty subset of the
  leaves, and the lookup of \<open>{a}\<close> gives the leaf \<open>b\<close>.
\<close>

theorem sibling_at_seed_node_returned:
  "Leaf ''a'' \<in> set (postorder (seed_node cherry_ab))
   \<and> get_leaf_list (Leaf ''a'') = [''a'']
   \<and> get_node_from_clade cherry_ab (map_splits_to_nodes cherry_ab) [''a''] = Inr (Some (Leaf ''b''))
   \<and> get_node_from_clade cherry_ab (map_splits_to_nodes cherry_ab) [''b''] = Inr (Some (Leaf ''b''))
   \<and> Leaf ''b'' \<noteq> Leaf ''a''"
  by code_simp

subsection \<open>The order of the node pool\<close>

lemma bind_Inr_iff: "bind m f = Inr r \<longleftrightarrow> (\<exists>x. m = Inr x \<and> f x = Inr r)"
  by (cases m) simp_all











subsection \<open>Re-rooting keeps the sides\<close>






lemma is_side_iff:
  "is_side t S \<longleftrightarrow>
     filter (\<lambda>v. get_leaf_set v = S \<or> get_leaf_set (seed_node t) - get_leaf_set v = S)
       (postorder (seed_node t)) \<noteq> []"
  by (auto simp: is_side_def sides_def filter_empty_conv)






lemma lookup_none_not_side:
  assumes ns: "set (taxon_namespace t) = get_leaf_set (seed_node t)"
    and look: "get_node_from_clade t (map_splits_to_nodes t) c = Inr None"
    and sub: "set c \<subseteq> get_leaf_set (seed_node t)"
  shows "\<not> is_side t (set c)"
proof -
  from look sub get_node_from_clade_built [OF ns, of c]
  have "map_splits_to_nodes t (bits_from 0 (taxon_namespace t) (set c)) = None"
    by (auto simp: taxa_bitmask_def split: if_splits)
  with map_splits_to_nodes_clade [OF ns sub] show ?thesis
    by (auto simp: is_side_iff split: if_splits)
qed

lemma not_a_clade_not_side:
  assumes ns: "set (taxon_namespace t) = get_leaf_set (seed_node t)"
    and "not_a_clade t (map_splits_to_nodes t) c = Inr True"
    and sub: "set c \<subseteq> get_leaf_set (seed_node t)"
  shows "\<not> is_side t (set c)"
proof -
  from assms(2) have "get_node_from_clade t (map_splits_to_nodes t) c = Inr None"
    by (auto simp: not_a_clade_def bind_Inr_iff)
  from lookup_none_not_side [OF ns this sub] show ?thesis .
qed



subsection \<open>What a rejected pair does to the constraint trees\<close>



end
